theory Spec2Isabelle
  imports Main "HOL-Library.Word" "HOL-Library.Char_ord" "HOL-Library.List_Lexorder"
begin

section \<open>The service core of AyanBot (include/ayan/core/service.h)\<close>

text \<open>
  The header defines \<^verbatim>\<open>RunResult\<close>, the registry of service constructors, the class
  \<^verbatim>\<open>ServiceManager\<close> (the execution stack), the template \<^verbatim>\<open>ServiceImpl<Impl>\<close> that every
  service derives from, and the dispatcher \<^verbatim>\<open>ServiceSecheduler\<close>.

  Conventions of the embedding.
  \<^item> A call that does not return normally is a value of type \<open>fault\<close>: every function that
    can fail returns \<open>fault + 'a\<close>, with \<open>Inl\<close> the fault.
  \<^item> A \<^verbatim>\<open>Shared<ServiceConcept>\<close> is a \<open>service option\<close>; \<open>None\<close> is the null pointer. A
    service is a value: the entry of a stack holds the service it points to, and a call
    through the pointer returns the service as the call left it. A service that is reachable
    through two pointers (one object in two stacks, or in its own stack) is outside this
    model; no such sharing is built by the header itself.
  \<^item> \<^verbatim>\<open>std::map<std::string_view, ExecState>\<close> is an association list whose keys ascend
    strictly in the order of \<^verbatim>\<open>std::string_view\<close> (bytes as unsigned values, a proper
    prefix first), which is the order of \<open>string\<close> here.
  \<^item> The \<^verbatim>\<open>Bot\<close> and the \<^verbatim>\<open>Event\<close> are opaque to the header. The event is a value of an
    arbitrary type \<open>'ev\<close>; the bot is left out, and what it would observe, the sequence of
    hook invocations, is returned by \<open>install\<close>, \<open>uninstall\<close> and \<open>serve\<close>.
\<close>

subsection \<open>Faults\<close>

datatype fault =
    Terminated  \<comment> \<open>\<^verbatim>\<open>std::terminate\<close>: an exception leaves a \<^verbatim>\<open>noexcept\<close> function\<close>
  | NullDeref   \<comment> \<open>a member call through a null \<^verbatim>\<open>Shared<ServiceConcept>\<close>\<close>
  | OutOfFuel   \<comment> \<open>not a behaviour of the program: the recursion bound of \<open>install\<close> was reached\<close>

definition and_then :: "fault + 'a \<Rightarrow> ('a \<Rightarrow> fault + 'b) \<Rightarrow> fault + 'b" where
  "and_then m k = (case m of Inl f \<Rightarrow> Inl f | Inr x \<Rightarrow> k x)"

subsection \<open>RunResult (lines 20-46)\<close>

type_synonym RetCode = "32 word"  \<comment> \<open>\<^verbatim>\<open>using RetCode = int\<close>, read as signed by \<open>sint\<close>\<close>

text \<open>\<^verbatim>\<open>std::any\<close>: empty, or a value together with its type. Three payload types stand for
  the types a service may store.\<close>

datatype any_value = AnyInt int | AnyString string | AnyBool bool

record RunResult =
  ret :: RetCode
  extra :: "any_value option"

definition NoSignaficantRet :: RetCode where
  "NoSignaficantRet = 0"

definition nothing :: RunResult where
  "nothing = \<lparr>ret = NoSignaficantRet, extra = None\<rparr>"

definition ill :: "RunResult \<Rightarrow> bool" where
  "ill r = (ret r = NoSignaficantRet)"

definition success :: "RunResult \<Rightarrow> bool" where
  "success r = (sint (ret r) > sint NoSignaficantRet)"

definition failed :: "RunResult \<Rightarrow> bool" where
  "failed r = (sint (ret r) < sint NoSignaficantRet)"

subsection \<open>Services and execution states (lines 48-61, 104-110)\<close>

text \<open>A service object: the name of its concrete type, which is what \<^verbatim>\<open>identity()\<close> returns
  (\<^verbatim>\<open>util::type_name<Impl>()\<close>, line 194), and the member \<^verbatim>\<open>mgr_\<close>, whose only state is
  the execution stack \<^verbatim>\<open>stack_\<close>.\<close>

datatype service = Service (identity: string) (mgr: "(string \<times> ExecState) list")
  and ExecState = ExecState (result: RunResult) (sev: "service option")

type_synonym ExecuteStack = "(string \<times> ExecState) list"

text \<open>\<^verbatim>\<open>ExecState{}\<close>: a default \<^verbatim>\<open>RunResult\<close> and a null pointer.\<close>

definition ExecState_default :: ExecState where
  "ExecState_default = ExecState nothing None"

text \<open>The representation invariant of \<^verbatim>\<open>std::map\<close>: keys ascend strictly.\<close>

definition map_invariant :: "ExecuteStack \<Rightarrow> bool" where
  "map_invariant stk = sorted_wrt (<) (map fst stk)"

subsection \<open>The registry (lines 63-100)\<close>

type_synonym SevCtor = "unit \<Rightarrow> service option"
type_synonym SevSupportMap = "string \<Rightarrow> SevCtor option"

text \<open>\<^verbatim>\<open>ServiceCreator<Sev>::create\<close> is \<^verbatim>\<open>std::make_shared<Sev>()\<close>: a new service of type
  \<open>Sev\<close> with an empty stack.\<close>

definition ServiceCreator_create :: "string \<Rightarrow> SevCtor" where
  "ServiceCreator_create sev_name = (\<lambda>_. Some (Service sev_name []))"

text \<open>\<^verbatim>\<open>map.emplace\<close> inserts only when the key is absent.\<close>

definition make_available :: "string \<Rightarrow> SevSupportMap \<Rightarrow> SevSupportMap" where
  "make_available sev_name m =
     (case m sev_name of
        None \<Rightarrow> m(sev_name \<mapsto> ServiceCreator_create sev_name)
      | Some _ \<Rightarrow> m)"

subsection \<open>ServiceManager (lines 102-184)\<close>

text \<open>\<^verbatim>\<open>stack_[key]\<close> finds the entry of \<open>key\<close> or inserts a default one at its place in the
  order, and yields a reference to it. \<open>subscript\<close> is the read through that reference,
  with the stack after the possible insertion; \<open>assign\<close> is a write through it.\<close>

fun subscript :: "string \<Rightarrow> ExecuteStack \<Rightarrow> ExecState \<times> ExecuteStack" where
  "subscript key [] = (ExecState_default, [(key, ExecState_default)])"
| "subscript key ((k, e) # es) =
     (if key = k then (e, (k, e) # es)
      else if key < k then (ExecState_default, (key, ExecState_default) # (k, e) # es)
      else (case subscript key es of (x, es') \<Rightarrow> (x, (k, e) # es')))"

fun assign :: "string \<Rightarrow> (ExecState \<Rightarrow> ExecState) \<Rightarrow> ExecuteStack \<Rightarrow> ExecuteStack" where
  "assign key f [] = [(key, f ExecState_default)]"
| "assign key f ((k, e) # es) =
     (if key = k then (k, f e) # es
      else if key < k then (key, f ExecState_default) # (k, e) # es
      else (k, e) # assign key f es)"

text \<open>
  \<^verbatim>\<open>require\<close> (lines 116-121). \<^verbatim>\<open>at\<close> throws \<^verbatim>\<open>std::out_of_range\<close> for a name that is not
  registered; the function is \<^verbatim>\<open>noexcept\<close>, so the process terminates.

  For a registered name, line 119 is
  \<^verbatim>\<open>stack_[sev->identity()] = ExecState{.sev = std::move(sev)};\<close>
  The designated initialiser makes this C++20, where the right operand of an assignment is
  sequenced before the left one, also for an overloaded \<^verbatim>\<open>operator=\<close>. The temporary
  \<^verbatim>\<open>ExecState\<close> is therefore built first; its member takes over the pointer and leaves the
  local \<^verbatim>\<open>sev\<close> null. \<^verbatim>\<open>sev->identity()\<close> is evaluated after that, on what the local
  \<^verbatim>\<open>sev\<close> then holds.
\<close>

definition require :: "SevSupportMap \<Rightarrow> string \<Rightarrow> ExecuteStack \<Rightarrow> fault + ExecuteStack" where
  "require all_available_services service_name stk =
     (case all_available_services service_name of
        None \<Rightarrow> Inl Terminated
      | Some ctor \<Rightarrow>
          (let sev0 = ctor ();
               rhs = ExecState nothing sev0;
               sev1 = (None :: service option)
           in case sev1 of
                None \<Rightarrow> Inl NullDeref
              | Some s \<Rightarrow> Inr (assign (identity s) (\<lambda>_. rhs) stk)))"

definition remove_all :: "ExecuteStack \<Rightarrow> ExecuteStack" where
  "remove_all stk = []"

text \<open>\<^verbatim>\<open>std::erase_if\<close> with the predicate of \<^verbatim>\<open>remove\<close> (lines 129-134): every entry is
  tested in order, through its service pointer, and the number of erased entries comes back.\<close>

fun erase_if_identity :: "string \<Rightarrow> ExecuteStack \<Rightarrow> fault + (ExecuteStack \<times> nat)" where
  "erase_if_identity service_name [] = Inr ([], 0)"
| "erase_if_identity service_name ((k, state) # es) =
     (case sev state of
        None \<Rightarrow> Inl NullDeref
      | Some s \<Rightarrow>
          and_then (erase_if_identity service_name es) (\<lambda>(es', n).
            if service_name = identity s then Inr (es', Suc n) else Inr ((k, state) # es', n)))"

definition remove_service :: "string \<Rightarrow> ExecuteStack \<Rightarrow> fault + (ExecuteStack \<times> bool)" where
  "remove_service service_name stk =
     and_then (erase_if_identity service_name stk) (\<lambda>(stk', n). Inr (stk', n \<ge> 1))"

text \<open>\<^verbatim>\<open>invalid_if\<close> (lines 140-150). The condition is any callable on an \<^verbatim>\<open>ExecState\<close>; it
  may call through the service pointer, so it may fault. The count is a \<^verbatim>\<open>size_t\<close>, which
  the number of entries of a map cannot exceed.\<close>

fun invalid_if :: "(ExecState \<Rightarrow> fault + bool) \<Rightarrow> ExecuteStack \<Rightarrow> fault + (ExecuteStack \<times> nat)" where
  "invalid_if cond [] = Inr ([], 0)"
| "invalid_if cond ((k, state) # es) =
     and_then (cond state) (\<lambda>b.
     and_then (invalid_if cond es) (\<lambda>(es', count).
       if b then Inr ((k, ExecState nothing (sev state)) # es', count + 1)
       else Inr ((k, state) # es', count)))"

text \<open>The overload on the return code (lines 152-154).\<close>

definition invalid_if_ret :: "(RetCode \<Rightarrow> bool) \<Rightarrow> ExecuteStack \<Rightarrow> fault + (ExecuteStack \<times> nat)" where
  "invalid_if_ret cond stk = invalid_if (\<lambda>s. Inr (cond (ret (result s)))) stk"

text \<open>\<^verbatim>\<open>invalid(sev_name)\<close> (lines 156-160).\<close>

definition invalid_name :: "string \<Rightarrow> ExecuteStack \<Rightarrow> fault + (ExecuteStack \<times> bool)" where
  "invalid_name sev_name stk =
     and_then
       (invalid_if (\<lambda>s. case sev s of None \<Rightarrow> Inl NullDeref | Some x \<Rightarrow> Inr (identity x = sev_name)) stk)
       (\<lambda>(stk', count). Inr (stk', count > 0))"

text \<open>\<^verbatim>\<open>invalid()\<close> (lines 162-164) returns nothing; the model returns the stack it leaves.\<close>

definition invalid_all :: "ExecuteStack \<Rightarrow> fault + ExecuteStack" where
  "invalid_all stk = and_then (invalid_if (\<lambda>_. Inr True) stk) (\<lambda>(stk', count). Inr stk')"

text \<open>\<^verbatim>\<open>replace\<close> (lines 167-171). Line 168 moves the cached result out of \<^verbatim>\<open>stack_[key]\<close>,
  line 169 stores \<open>newer\<close> there, line 170 returns what was moved out.\<close>

definition replace :: "string \<Rightarrow> RunResult \<Rightarrow> ExecuteStack \<Rightarrow> RunResult \<times> ExecuteStack" where
  "replace key newer stk =
     (case subscript key stk of (e, stk1) \<Rightarrow>
        (let ret = result e;
             stk2 = assign key (\<lambda>x. ExecState newer (sev x)) stk1
         in (ret, stk2)))"

text \<open>\<^verbatim>\<open>foreach\<close> (lines 173-175): \<^verbatim>\<open>std::for_each\<close> from \<^verbatim>\<open>begin()\<close> to \<^verbatim>\<open>end()\<close>. The
  visitor gets a reference to the pair of the constant key and the state: it may change the
  state, and whatever it captured, here a value of type \<open>'s\<close>.\<close>

fun foreach ::
  "(string \<times> ExecState \<Rightarrow> 's \<Rightarrow> fault + (ExecState \<times> 's)) \<Rightarrow> ExecuteStack \<Rightarrow> 's
   \<Rightarrow> fault + (ExecuteStack \<times> 's)" where
  "foreach visit [] s = Inr ([], s)"
| "foreach visit ((k, state) # es) s =
     and_then (visit (k, state) s) (\<lambda>(state', s').
     and_then (foreach visit es s') (\<lambda>(es', s'').
       Inr ((k, state') # es', s'')))"

text \<open>\<^verbatim>\<open>add\<close> (lines 177-180).\<close>

definition add :: "service option \<Rightarrow> ExecuteStack \<Rightarrow> fault + ExecuteStack" where
  "add sev_ptr stk =
     (case sev_ptr of
        None \<Rightarrow> Inl NullDeref
      | Some s \<Rightarrow> Inr (assign (identity s) (\<lambda>_. ExecState nothing sev_ptr) stk))"

subsection \<open>ServiceImpl and ServiceSecheduler (lines 186-277)\<close>

text \<open>
  The concrete type of a service fixes the four hooks that \<^verbatim>\<open>ServiceImpl<Impl>\<close> calls.
  Only one concrete type is part of the header, \<^verbatim>\<open>ServiceSecheduler\<close>; every other one is a
  parameter, \<open>ServiceImpl usuage load unload run\<close>, with its hooks given as functions on the
  stack of the service they run on, which is all the state the header gives a service. A
  hook that throws (the callers are \<^verbatim>\<open>noexcept\<close>) or calls through a null pointer returns
  a fault. The hook invocations that are recorded are the ones the header makes; what a
  hook of a parameter type calls on its own is part of the function that stands for it.

  A \<open>program\<close> gives the concrete type behind each type name.
\<close>

datatype 'ev impl =
    ServiceSecheduler
  | ServiceImpl
      "ExecuteStack \<Rightarrow> fault + ExecuteStack"
      "ExecuteStack \<Rightarrow> fault + ExecuteStack"
      "ExecuteStack \<Rightarrow> fault + ExecuteStack"
      "'ev \<Rightarrow> ExecuteStack \<Rightarrow> fault + (RunResult \<times> ExecuteStack)"

type_synonym 'ev program = "string \<Rightarrow> 'ev impl"

text \<open>The defaults of \<^verbatim>\<open>ServiceImpl\<close> (lines 229-244): three empty bodies, and a \<^verbatim>\<open>run\<close>
  that returns \<^verbatim>\<open>RunResult{}\<close>.\<close>

definition ServiceImpl_default :: "'ev impl" where
  "ServiceImpl_default = ServiceImpl Inr Inr Inr (\<lambda>event stk. Inr (nothing, stk))"

text \<open>\<^verbatim>\<open>impl->usuage(&this->mgr_, &impl->mgr_)\<close>: both arguments are the one member
  \<^verbatim>\<open>mgr_\<close>. The dispatcher's \<^verbatim>\<open>usuage\<close>, \<^verbatim>\<open>load\<close> and \<^verbatim>\<open>unload\<close> are empty (lines 267-269).\<close>

fun usuage :: "'ev impl \<Rightarrow> ExecuteStack \<Rightarrow> fault + ExecuteStack" where
  "usuage ServiceSecheduler stk = Inr stk"
| "usuage (ServiceImpl u l ul r) stk = u stk"

fun load :: "'ev impl \<Rightarrow> ExecuteStack \<Rightarrow> fault + ExecuteStack" where
  "load ServiceSecheduler stk = Inr stk"
| "load (ServiceImpl u l ul r) stk = l stk"

fun unload :: "'ev impl \<Rightarrow> ExecuteStack \<Rightarrow> fault + ExecuteStack" where
  "unload ServiceSecheduler stk = Inr stk"
| "unload (ServiceImpl u l ul r) stk = ul stk"

text \<open>The invocations of hooks, in the order they happen.\<close>

datatype hook_call = Usuage string | Load string | Unload string | Run string

text \<open>Facts the definitions by recursion through \<open>foreach\<close> and \<open>and_then\<close> need.\<close>

lemma and_then_cong [fundef_cong]:
  "m = m' \<Longrightarrow> (\<And>x. m' = Inr x \<Longrightarrow> k x = k' x) \<Longrightarrow> and_then m k = and_then m' k'"
  by (auto simp: and_then_def split: sum.splits)

lemma foreach_cong [fundef_cong]:
  "stk = stk' \<Longrightarrow> s = s' \<Longrightarrow> (\<And>kv t. kv \<in> set stk' \<Longrightarrow> visit kv t = visit' kv t)
   \<Longrightarrow> foreach visit stk s = foreach visit' stk' s'"
proof (induction stk' arbitrary: stk s s')
  case Nil
  then show ?case by simp
next
  case (Cons a es)
  obtain k e where a: "a = (k, e)" by (cases a)
  have "foreach visit es t = foreach visit' es t" for t
    using Cons.IH [of es t t] Cons.prems(3) by simp
  then show ?case using Cons.prems a by (simp add: and_then_def)
qed

lemma size_child:
  "(k, state) \<in> set stk \<Longrightarrow> sev state = Some c
   \<Longrightarrow> size c < Suc (size_list (size_prod (\<lambda>x. 0) size) stk)"
proof (induction stk)
  case Nil
  then show ?case by simp
next
  case (Cons a es)
  show ?case
  proof (cases "a = (k, state)")
    case True
    then show ?thesis using Cons.prems(2) by (cases state) simp
  next
    case False
    then have "size c < Suc (size_list (size_prod (\<lambda>x. 0) size) es)"
      using Cons by simp
    then show ?thesis by simp
  qed
qed

text \<open>
  \<^verbatim>\<open>install\<close> (lines 200-208): the \<^verbatim>\<open>usuage\<close> hook, then \<^verbatim>\<open>install\<close> of every entry of the
  stack through its service pointer, then the \<^verbatim>\<open>load\<close> hook. A \<^verbatim>\<open>usuage\<close> hook may add
  children without bound (a type that adds a child of its own type), so the recursion
  carries a bound on its depth.
\<close>

fun install :: "nat \<Rightarrow> 'ev program \<Rightarrow> service \<Rightarrow> fault + (service \<times> hook_call list)" where
  "install 0 prog s = Inl OutOfFuel"
| "install (Suc n) prog (Service nm stk) =
     and_then (usuage (prog nm) stk) (\<lambda>stk1.
     and_then
       (foreach
          (\<lambda>(k, state) tr.
             case sev state of
               None \<Rightarrow> Inl NullDeref
             | Some c \<Rightarrow>
                 and_then (install n prog c) (\<lambda>(c', t).
                   Inr (ExecState (result state) (Some c'), tr @ t)))
          stk1 [])
       (\<lambda>(stk2, tr).
     and_then (load (prog nm) stk2) (\<lambda>stk3.
       Inr (Service nm stk3, Usuage nm # tr @ [Load nm]))))"

text \<open>\<^verbatim>\<open>uninstall\<close> (lines 212-220): \<^verbatim>\<open>uninstall\<close> of every entry, then the \<^verbatim>\<open>unload\<close> hook.\<close>

function uninstall :: "'ev program \<Rightarrow> service \<Rightarrow> fault + (service \<times> hook_call list)" where
  "uninstall prog (Service nm stk) =
     and_then
       (foreach
          (\<lambda>(k, state) tr.
             case sev state of
               None \<Rightarrow> Inl NullDeref
             | Some c \<Rightarrow>
                 and_then (uninstall prog c) (\<lambda>(c', t).
                   Inr (ExecState (result state) (Some c'), tr @ t)))
          stk [])
       (\<lambda>(stk1, tr).
     and_then (unload (prog nm) stk1) (\<lambda>stk2.
       Inr (Service nm stk2, tr @ [Unload nm])))"
  by pat_completeness auto
termination
  by (relation "measure (\<lambda>(prog, s). size s)") (auto dest: size_child)

text \<open>
  \<^verbatim>\<open>run\<close> and \<^verbatim>\<open>serve\<close>. The dispatcher's \<^verbatim>\<open>run\<close> (lines 270-276) calls \<^verbatim>\<open>serve\<close> through
  every entry's service pointer, stores what it returns in the entry, and returns
  \<^verbatim>\<open>RunResult::nothing()\<close>. \<^verbatim>\<open>serve\<close> (lines 224-227) is
  \<^verbatim>\<open>return mgr_.replace(identity(), impl->run(bot, event));\<close>
  the argument is evaluated before the call of \<^verbatim>\<open>replace\<close>, and \<^verbatim>\<open>mgr_\<close> is the member of
  the service that is serving.
\<close>

function run :: "'ev program \<Rightarrow> 'ev \<Rightarrow> service \<Rightarrow> fault + (RunResult \<times> ExecuteStack \<times> hook_call list)"
  and serve :: "'ev program \<Rightarrow> 'ev \<Rightarrow> service \<Rightarrow> fault + (RunResult \<times> service \<times> hook_call list)" where
  "run prog event (Service nm stk) =
     (case prog nm of
        ServiceSecheduler \<Rightarrow>
          and_then
            (foreach
               (\<lambda>(k, exec_state) tr.
                  case sev exec_state of
                    None \<Rightarrow> Inl NullDeref
                  | Some c \<Rightarrow>
                      and_then (serve prog event c) (\<lambda>(r, c', t).
                        Inr (ExecState r (Some c'), tr @ t)))
               stk [])
            (\<lambda>(stk1, tr). Inr (nothing, stk1, Run nm # tr))
      | ServiceImpl u l ul r \<Rightarrow>
          and_then (r event stk) (\<lambda>(res, stk1). Inr (res, stk1, [Run nm])))"
| "serve prog event (Service nm stk) =
     and_then (run prog event (Service nm stk)) (\<lambda>(newer, stk1, tr).
       case replace nm newer stk1 of (old, stk2) \<Rightarrow> Inr (old, Service nm stk2, tr))"
  by pat_completeness auto
termination
  by (relation "measure (\<lambda>x. case x of
         Inl (prog, event, s) \<Rightarrow> 2 * size s
       | Inr (prog, event, s) \<Rightarrow> 2 * size s + 1)") (auto dest: size_child)

text \<open>The equations of the recursive functions are used where they are named.\<close>

declare install.simps [simp del] uninstall.simps [simp del] run.simps [simp del] serve.simps [simp del]

section \<open>Scenarios the claims speak about\<close>

text \<open>A sequence of calls of \<^verbatim>\<open>add\<close>, one for each service of a list, in the order of the
  list.\<close>

fun add_each :: "service list \<Rightarrow> ExecuteStack \<Rightarrow> fault + ExecuteStack" where
  "add_each [] stk = Inr stk"
| "add_each (s # ss) stk = and_then (add (Some s) stk) (add_each ss)"

text \<open>A traversal by \<^verbatim>\<open>foreach\<close> whose visitor appends the key it is called with to a
  list, and leaves the state alone: the list is the order of the visits.\<close>

definition visit_order :: "ExecuteStack \<Rightarrow> fault + (ExecuteStack \<times> string list)" where
  "visit_order stk = foreach (\<lambda>(k, state) seen. Inr (state, seen @ [k])) stk []"

text \<open>
  The fan-out scenario: a dispatcher (its type name is what \<^verbatim>\<open>util::type_name\<close> gives for
  \<^verbatim>\<open>ayan::ServiceSecheduler\<close>) with two children that were added by \<^verbatim>\<open>add\<close>, \<open>X\<close>
  whose \<^verbatim>\<open>run\<close> always returns the code \<open>-1\<close> and \<open>Y\<close> whose \<^verbatim>\<open>run\<close> always returns \<open>1\<close>.
  Their other hooks are the defaults.
\<close>

definition fan_out_program :: "unit program" where
  "fan_out_program nm =
     (if nm = ''ayan::ServiceSecheduler'' then ServiceSecheduler
      else if nm = ''X'' then ServiceImpl Inr Inr Inr (\<lambda>event stk. Inr (\<lparr>ret = - 1, extra = None\<rparr>, stk))
      else if nm = ''Y'' then ServiceImpl Inr Inr Inr (\<lambda>event stk. Inr (\<lparr>ret = 1, extra = None\<rparr>, stk))
      else ServiceImpl_default)"

definition fan_out_dispatcher :: service where
  "fan_out_dispatcher =
     Service ''ayan::ServiceSecheduler''
       [(''X'', ExecState nothing (Some (Service ''X'' []))),
        (''Y'', ExecState nothing (Some (Service ''Y'' [])))]"

text \<open>
  The lifecycle scenario: a service \<open>S\<close> whose \<^verbatim>\<open>usuage\<close> hook adds a child \<open>Q\<close> and then
  a child \<open>P\<close>, whose \<^verbatim>\<open>load\<close> hook stores the code \<open>1\<close> as the cached result of \<open>P\<close>
  (by \<^verbatim>\<open>replace\<close>), and whose \<^verbatim>\<open>unload\<close> hook empties the stack (by \<^verbatim>\<open>remove_all\<close>). The
  hooks of \<open>P\<close> and \<open>Q\<close> are the defaults.
\<close>

definition lifecycle_program :: "unit program" where
  "lifecycle_program nm =
     (if nm = ''S'' then
        ServiceImpl
          (add_each [Service ''Q'' [], Service ''P'' []])
          (\<lambda>stk. Inr (snd (replace ''P'' \<lparr>ret = 1, extra = None\<rparr> stk)))
          (\<lambda>stk. Inr (remove_all stk))
          (\<lambda>event stk. Inr (nothing, stk))
      else ServiceImpl_default)"

section \<open>Facts about the stack operations\<close>

lemma and_then_Inr [simp]: "and_then (Inr x) k = k x"
  by (simp add: and_then_def)

lemma and_then_Inl [simp]: "and_then (Inl f) k = Inl f"
  by (simp add: and_then_def)

lemma and_then_eq_Inr:
  "and_then m k = Inr y \<longleftrightarrow> (\<exists>x. m = Inr x \<and> k x = Inr y)"
  by (cases m) simp_all

lemma snd_subscript: "snd (subscript key stk) = assign key (\<lambda>x. x) stk"
  by (induction stk) (auto split: prod.splits)

lemma fst_subscript_assign:
  "fst (subscript key (assign key f stk)) = f (fst (subscript key stk))"
  by (induction stk) (auto split: prod.splits)

lemma assign_assign:
  "assign key g (assign key f stk) = assign key (\<lambda>x. g (f x)) stk"
  by (induction stk) auto

lemma map_of_assign_same:
  "map_of (assign key f stk) key = Some (f (fst (subscript key stk)))"
  by (induction stk) (auto split: prod.splits)

lemma map_of_assign_other:
  "k \<noteq> key \<Longrightarrow> map_of (assign key f stk) k = map_of stk k"
  by (induction stk) auto

lemma keys_assign: "fst ` set (assign key f stk) = insert key (fst ` set stk)"
proof (induction stk)
  case Nil
  then show ?case by simp
next
  case (Cons a es)
  obtain k e where a: "a = (k, e)" by (cases a)
  show ?case
    unfolding a using Cons.IH by (simp add: insert_commute)
qed

lemma map_invariant_Cons:
  "map_invariant ((k, e) # es) \<longleftrightarrow> (\<forall>k' \<in> fst ` set es. k < k') \<and> map_invariant es"
  by (auto simp: map_invariant_def)

lemma map_invariant_assign:
  "map_invariant stk \<Longrightarrow> map_invariant (assign key f stk)"
proof (induction stk)
  case Nil
  then show ?case by (simp add: map_invariant_def)
next
  case (Cons a es)
  obtain k e where a: "a = (k, e)" by (cases a)
  have inv: "\<forall>k' \<in> fst ` set es. k < k'" "map_invariant es"
    using Cons.prems a by (simp_all add: map_invariant_Cons)
  show ?case
  proof (cases "key = k")
    case True
    then show ?thesis using inv a by (simp add: map_invariant_Cons)
  next
    case False
    show ?thesis
    proof (cases "key < k")
      case True
      then have "\<forall>k' \<in> fst ` set ((k, e) # es). key < k'"
        using inv(1) by auto
      then show ?thesis using True False a Cons.prems
        by (simp add: map_invariant_Cons)
    next
      case ge: False
      then have "k < key" using False by simp
      then have "\<forall>k' \<in> fst ` set (assign key f es). k < k'"
        using inv(1) by (simp add: keys_assign)
      then show ?thesis using ge False a Cons.IH inv(2)
        by (simp add: map_invariant_Cons)
    qed
  qed
qed

lemma map_invariant_distinct: "map_invariant stk \<Longrightarrow> distinct (map fst stk)"
  unfolding map_invariant_def by (simp add: strict_sorted_iff)

lemma invalid_if_True:
  "invalid_if (\<lambda>_. Inr True) stk = Inr (map (\<lambda>(k, s). (k, ExecState nothing (sev s))) stk, length stk)"
  by (induction stk) auto

lemma erase_if_identity_keys:
  "erase_if_identity nm stk = Inr (stk', n) \<Longrightarrow> fst ` set stk' \<subseteq> fst ` set stk"
proof (induction stk arbitrary: stk' n)
  case Nil
  then show ?case by simp
next
  case (Cons a es)
  obtain k e where a: "a = (k, e)" by (cases a)
  from Cons.prems a obtain s es' m where
    s: "sev e = Some s" and rec: "erase_if_identity nm es = Inr (es', m)"
    and res: "stk' = (if nm = identity s then es' else (k, e) # es')"
    by (auto simp: and_then_eq_Inr split: option.splits if_splits)
  from Cons.IH [OF rec] have "fst ` set es' \<subseteq> fst ` set es" .
  then show ?case using res a by auto
qed

lemma erase_if_identity_invariant:
  "erase_if_identity nm stk = Inr (stk', n) \<Longrightarrow> map_invariant stk \<Longrightarrow> map_invariant stk'"
proof (induction stk arbitrary: stk' n)
  case Nil
  then show ?case by simp
next
  case (Cons a es)
  obtain k e where a: "a = (k, e)" by (cases a)
  from Cons.prems(1) a obtain s es' m where
    s: "sev e = Some s" and rec: "erase_if_identity nm es = Inr (es', m)"
    and res: "stk' = (if nm = identity s then es' else (k, e) # es')"
    by (auto simp: and_then_eq_Inr split: option.splits if_splits)
  have inv: "\<forall>k' \<in> fst ` set es. k < k'" "map_invariant es"
    using Cons.prems(2) a by (simp_all add: map_invariant_Cons)
  have es': "map_invariant es'" using Cons.IH [OF rec inv(2)] .
  have "\<forall>k' \<in> fst ` set es'. k < k'"
    using erase_if_identity_keys [OF rec] inv(1) by blast
  then show ?case using res es' by (simp add: map_invariant_Cons)
qed

lemma invalid_if_keys:
  "invalid_if cond stk = Inr (stk', n) \<Longrightarrow> map fst stk' = map fst stk"
proof (induction stk arbitrary: stk' n)
  case Nil
  then show ?case by simp
next
  case (Cons a es)
  obtain k e where a: "a = (k, e)" by (cases a)
  from Cons.prems a obtain b es' m where
    rec: "invalid_if cond es = Inr (es', m)" and res: "map fst stk' = k # map fst es'"
    by (auto simp: and_then_eq_Inr split: if_splits)
  from Cons.IH [OF rec] res a show ?case by simp
qed

lemma foreach_keys:
  "foreach visit stk s = Inr (stk', s') \<Longrightarrow> map fst stk' = map fst stk"
proof (induction stk arbitrary: stk' s s')
  case Nil
  then show ?case by simp
next
  case (Cons a es)
  obtain k e where a: "a = (k, e)" by (cases a)
  from Cons.prems a obtain t es' t' where
    rec: "foreach visit es t = Inr (es', t')" and res: "map fst stk' = k # map fst es'"
    by (auto simp: and_then_eq_Inr)
  from Cons.IH [OF rec] res a show ?case by simp
qed

lemma map_invariant_keys: "map fst stk' = map fst stk \<Longrightarrow> map_invariant stk \<Longrightarrow> map_invariant stk'"
  by (simp add: map_invariant_def)

lemma filter_key_unique:
  "distinct (map fst xs) \<Longrightarrow> map_of xs k = Some v \<Longrightarrow> filter (\<lambda>(k', e). k' = k) xs = [(k, v)]"
proof (induction xs)
  case Nil
  then show ?case by simp
next
  case (Cons a xs)
  obtain k' e where a: "a = (k', e)" by (cases a)
  show ?case
  proof (cases "k' = k")
    case True
    then have "k \<notin> fst ` set xs" using Cons.prems(1) a by simp
    then have "filter (\<lambda>(k', e). k' = k) xs = []"
      by (force simp: filter_empty_conv)
    then show ?thesis using True a Cons.prems(2) by simp
  next
    case False
    then show ?thesis using Cons a by simp
  qed
qed


lemma add_Some: "add (Some s) stk = Inr (assign (identity s) (\<lambda>_. ExecState nothing (Some s)) stk)"
  by (simp add: add_def)

lemma replace_snd: "snd (replace key newer stk) = assign key (\<lambda>x. ExecState newer (sev x)) stk"
  using snd_subscript [of key stk]
  by (auto simp: replace_def assign_assign split: prod.splits)

lemma replace_fst: "fst (replace key newer stk) = result (fst (subscript key stk))"
  by (auto simp: replace_def split: prod.splits)

lemma visit_order_eq: "visit_order stk = Inr (stk, map fst stk)"
proof -
  have "foreach (\<lambda>(k, state) seen. Inr (state, seen @ [k])) stk acc = Inr (stk, acc @ map fst stk)"
    for acc
    by (induction stk arbitrary: acc) auto
  from this [of "[]"] show ?thesis by (simp add: visit_order_def)
qed

lemma add_each_eq:
  "add_each xs stk
     = Inr (fold (\<lambda>s. assign (identity s) (\<lambda>_. ExecState nothing (Some s))) xs stk)"
  by (induction xs arbitrary: stk) (simp_all add: add_Some)

lemma fold_assign_invariant:
  "map_invariant stk \<Longrightarrow> map_invariant (fold (\<lambda>s. assign (identity s) (f s)) xs stk)"
  by (induction xs arbitrary: stk) (simp_all add: map_invariant_assign)

lemma fold_assign_keys:
  "fst ` set (fold (\<lambda>s. assign (identity s) (f s)) xs stk) = identity ` set xs \<union> fst ` set stk"
  by (induction xs arbitrary: stk) (auto simp: keys_assign)

lemma map_invariant_sorted_list:
  "map_invariant stk \<Longrightarrow> map fst stk = sorted_list_of_set (fst ` set stk)"
proof -
  assume "map_invariant stk"
  then have "sorted (map fst stk)" "distinct (map fst stk)"
    by (simp_all add: map_invariant_def strict_sorted_iff)
  then have "sorted_list_of_set (set (map fst stk)) = map fst stk"
    by (rule sorted_list_of_set.idem_if_sorted_distinct)
  then show ?thesis by simp
qed

lemma make_available_dom: "dom (make_available sev_name m) = insert sev_name (dom m)"
  by (auto simp: make_available_def split: option.splits)

lemma fold_make_available_dom: "dom (fold make_available names m) = set names \<union> dom m"
  by (induction names arbitrary: m) (auto simp: make_available_dom)

section \<open>Facts about null service pointers\<close>

lemma fst_subscript_absent:
  "key \<notin> fst ` set stk \<Longrightarrow> fst (subscript key stk) = ExecState_default"
proof (induction stk)
  case Nil
  then show ?case by simp
next
  case (Cons a es)
  obtain k e where a: "a = (k, e)" by (cases a)
  with Cons show ?case by (cases "subscript key es") simp
qed

lemma erase_if_identity_null:
  "(k, e) \<in> set stk \<Longrightarrow> sev e = None \<Longrightarrow> erase_if_identity nm stk = Inl NullDeref"
proof (induction stk)
  case Nil
  then show ?case by simp
next
  case (Cons a es)
  obtain k' e' where a: "a = (k', e')" by (cases a)
  show ?case
  proof (cases "sev e'")
    case None
    then show ?thesis using a by simp
  next
    case (Some s)
    then have "(k, e) \<in> set es" using Cons.prems a by auto
    then have "erase_if_identity nm es = Inl NullDeref" using Cons by simp
    then show ?thesis using a Some by simp
  qed
qed

lemma invalid_if_null:
  "(k, e) \<in> set stk \<Longrightarrow> sev e = None \<Longrightarrow>
   invalid_if (\<lambda>x. case sev x of None \<Rightarrow> Inl NullDeref | Some s \<Rightarrow> Inr (p s)) stk = Inl NullDeref"
proof (induction stk)
  case Nil
  then show ?case by simp
next
  case (Cons a es)
  obtain k' e' where a: "a = (k', e')" by (cases a)
  show ?case
  proof (cases "sev e'")
    case None
    then show ?thesis using a by simp
  next
    case (Some s)
    then have "(k, e) \<in> set es" using Cons.prems a by auto
    then have "invalid_if (\<lambda>x. case sev x of None \<Rightarrow> Inl NullDeref | Some s \<Rightarrow> Inr (p s)) es
        = Inl NullDeref"
      using Cons by simp
    then show ?thesis using a Some by simp
  qed
qed

text \<open>A traversal whose visitor calls through the service pointer does not return when the
  stack has an entry with a null pointer.\<close>

lemma foreach_null:
  assumes "(k, e) \<in> set stk" and "sev e = None"
    and "\<And>k x t. sev x = None \<Longrightarrow> visit (k, x) t = Inl NullDeref"
  shows "isl (foreach visit stk s)"
  using assms(1)
proof (induction stk arbitrary: s)
  case Nil
  then show ?case by simp
next
  case (Cons a es)
  obtain k' e' where a: "a = (k', e')" by (cases a)
  show ?case
  proof (cases "visit (k', e') s")
    case (Inl f)
    then show ?thesis using a by simp
  next
    case (Inr p)
    obtain e'' t where p: "p = (e'', t)" by (cases p)
    have "sev e' \<noteq> None" using Inr assms(3) [of e' k' s] by auto
    then have "(k, e) \<in> set es" using Cons.prems a assms(2) by auto
    then have "isl (foreach visit es t)" using Cons.IH by simp
    then show ?thesis using a Inr p by (cases "foreach visit es t") simp_all
  qed
qed

lemma foreach_null_only:
  assumes "(k, e) \<in> set stk" and "sev e = None"
    and "\<And>k x t. sev x = None \<Longrightarrow> visit (k, x) t = Inl NullDeref"
    and "\<And>kv t f. visit kv t = Inl f \<Longrightarrow> f = NullDeref"
  shows "foreach visit stk s = Inl NullDeref"
  using assms(1)
proof (induction stk arbitrary: s)
  case Nil
  then show ?case by simp
next
  case (Cons a es)
  obtain k' e' where a: "a = (k', e')" by (cases a)
  show ?case
  proof (cases "visit (k', e') s")
    case (Inl f)
    then show ?thesis using a assms(4) [of "(k', e')" s f] by simp
  next
    case (Inr p)
    obtain e'' t where p: "p = (e'', t)" by (cases p)
    have "sev e' \<noteq> None" using Inr assms(3) [of e' k' s] by auto
    then have "(k, e) \<in> set es" using Cons.prems a assms(2) by auto
    then have "foreach visit es t = Inl NullDeref" using Cons.IH by simp
    then show ?thesis using a Inr p by simp
  qed
qed

lemma uninstall_null:
  "(k, e) \<in> set stk \<Longrightarrow> sev e = None \<Longrightarrow> isl (uninstall prog (Service nm stk))"
proof -
  assume e: "(k, e) \<in> set stk" "sev e = None"
  let ?visit = "\<lambda>(k, state) tr.
             case sev state of
               None \<Rightarrow> Inl NullDeref
             | Some c \<Rightarrow>
                 and_then (uninstall prog c) (\<lambda>(c', t).
                   Inr (ExecState (result state) (Some c'), tr @ t))"
  have "isl (foreach ?visit stk [])"
    by (rule foreach_null [OF e]) simp
  then show ?thesis
    by (cases "foreach ?visit stk []") (simp_all add: uninstall.simps)
qed

lemma run_null:
  "(k, e) \<in> set stk \<Longrightarrow> sev e = None \<Longrightarrow> prog nm = ServiceSecheduler
   \<Longrightarrow> isl (run prog event (Service nm stk))"
proof -
  assume e: "(k, e) \<in> set stk" "sev e = None" and sched: "prog nm = ServiceSecheduler"
  let ?visit = "\<lambda>(k, exec_state) tr.
                  case sev exec_state of
                    None \<Rightarrow> Inl NullDeref
                  | Some c \<Rightarrow>
                      and_then (serve prog event c) (\<lambda>(r, c', t).
                        Inr (ExecState r (Some c'), tr @ t))"
  have "isl (foreach ?visit stk [])"
    by (rule foreach_null [OF e]) simp
  then show ?thesis using sched
    by (cases "foreach ?visit stk []") (simp_all add: run.simps)
qed

lemma serve_Inl: "isl (run prog event (Service nm stk)) \<Longrightarrow> isl (serve prog event (Service nm stk))"
  by (cases "run prog event (Service nm stk)") (simp_all add: serve.simps)

lemma install_null:
  "usuage (prog nm) stk0 = Inr stk \<Longrightarrow> (k, e) \<in> set stk \<Longrightarrow> sev e = None
   \<Longrightarrow> isl (install n prog (Service nm stk0))"
proof (cases n)
  case 0
  then show ?thesis by (simp add: install.simps)
next
  case (Suc m)
  assume u: "usuage (prog nm) stk0 = Inr stk" and e: "(k, e) \<in> set stk" "sev e = None"
  let ?visit = "\<lambda>(k, state) tr.
             case sev state of
               None \<Rightarrow> Inl NullDeref
             | Some c \<Rightarrow>
                 and_then (install m prog c) (\<lambda>(c', t).
                   Inr (ExecState (result state) (Some c'), tr @ t))"
  have "isl (foreach ?visit stk [])"
    by (rule foreach_null [OF e]) simp
  then show ?thesis using Suc u
    by (cases "foreach ?visit stk []") (simp_all add: install.simps)
qed

section \<open>Facts about serve, install and uninstall\<close>

lemma serve_eq:
  "serve prog event (Service nm stk) =
     and_then (run prog event (Service nm stk)) (\<lambda>(newer, stk1, tr).
       Inr (fst (replace nm newer stk1), Service nm (snd (replace nm newer stk1)), tr))"
proof -
  have "(case replace nm newer stk1 of (old, stk2) \<Rightarrow> Inr (old, Service nm stk2, tr))
      = (Inr (fst (replace nm newer stk1), Service nm (snd (replace nm newer stk1)), tr)
          :: fault + (RunResult \<times> service \<times> hook_call list))"
    for newer stk1 tr
    by (cases "replace nm newer stk1") simp
  then show ?thesis by (simp add: serve.simps)
qed

lemma run_trace:
  "run prog event (Service nm stk) = Inr (newer, stk1, tr) \<Longrightarrow> \<exists>rest. tr = Run nm # rest"
  by (cases "prog nm") (auto simp: run.simps and_then_eq_Inr)

lemma replace_entry:
  "map_option result (map_of (snd (replace key newer stk)) key) = Some newer"
  by (simp add: replace_snd map_of_assign_same)

lemma replace_others:
  "k \<noteq> key \<Longrightarrow> map_of (snd (replace key newer stk)) k = map_of stk k"
  by (simp add: replace_snd map_of_assign_other)

lemma foreach_Inl_source:
  "foreach visit stk s = Inl f \<Longrightarrow> \<exists>kv \<in> set stk. \<exists>t. visit kv t = Inl f"
proof (induction stk arbitrary: s)
  case Nil
  then show ?case by simp
next
  case (Cons a es)
  obtain k e where a: "a = (k, e)" by (cases a)
  show ?case
  proof (cases "visit (k, e) s")
    case (Inl g)
    then have "g = f" using Cons.prems a by simp
    then show ?thesis using Inl a by auto
  next
    case (Inr p)
    obtain e' t where p: "p = (e', t)" by (cases p)
    have "foreach visit es t = Inl f"
      using Cons.prems a Inr p by (cases "foreach visit es t") auto
    from Cons.IH [OF this] show ?thesis by auto
  qed
qed

lemma run_serve_fault_null:
  "(\<forall>n u l ul rn e st g. prog n = ServiceImpl u l ul rn \<longrightarrow> rn e st = Inl g \<longrightarrow> g = NullDeref)
   \<Longrightarrow> run prog event s = Inl f \<Longrightarrow> f = NullDeref"
  "(\<forall>n u l ul rn e st g. prog n = ServiceImpl u l ul rn \<longrightarrow> rn e st = Inl g \<longrightarrow> g = NullDeref)
   \<Longrightarrow> serve prog event s = Inl f \<Longrightarrow> f = NullDeref"
proof (induction prog event s and prog event s arbitrary: f and f rule: run_serve.induct)
  case (1 prog event nm stk)
  show ?case
  proof (cases "prog nm")
    case ServiceSecheduler
    let ?visit = "\<lambda>(k, exec_state) tr.
                  case sev exec_state of
                    None \<Rightarrow> Inl NullDeref
                  | Some c \<Rightarrow>
                      and_then (serve prog event c) (\<lambda>(r, c', t).
                        Inr (ExecState r (Some c'), tr @ t))"
    have "foreach ?visit stk [] = Inl f"
      using "1.prems"(2) ServiceSecheduler
      by (cases "foreach ?visit stk []") (auto simp: run.simps)
    then obtain k st t where mem: "(k, st) \<in> set stk" and v: "?visit (k, st) t = Inl f"
      using foreach_Inl_source [of ?visit stk "[]" f] by auto
    show ?thesis
    proof (cases "sev st")
      case None
      then show ?thesis using v by simp
    next
      case (Some c)
      then have "serve prog event c = Inl f"
        using v by (cases "serve prog event c") auto
      with "1.IH" [OF ServiceSecheduler mem refl Some "1.prems"(1)] show ?thesis .
    qed
  next
    case (ServiceImpl u l ul rn)
    then have "rn event stk = Inl f"
      using "1.prems"(2) by (cases "rn event stk") (auto simp: run.simps)
    with "1.prems"(1) ServiceImpl show ?thesis by blast
  qed
next
  case (2 prog event nm stk)
  have "run prog event (Service nm stk) = Inl f"
    using "2.prems"(2) by (cases "run prog event (Service nm stk)") (auto simp: serve_eq)
  with "2.IH" "2.prems"(1) show ?case .
qed

lemma foreach_mono:
  assumes "\<And>kv t y. kv \<in> set stk \<Longrightarrow> visit kv t = Inr y \<Longrightarrow> visit' kv t = Inr y"
  shows "foreach visit stk s = Inr x \<Longrightarrow> foreach visit' stk s = Inr x"
  using assms
proof (induction stk arbitrary: s x)
  case Nil
  then show ?case by simp
next
  case (Cons a es)
  obtain k e where a: "a = (k, e)" by (cases a)
  from Cons.prems(1) a obtain e' t es' t' where
    v: "visit (k, e) s = Inr (e', t)" and rec: "foreach visit es t = Inr (es', t')"
    and x: "x = ((k, e') # es', t')"
    by (auto simp: and_then_eq_Inr)
  have v': "visit' (k, e) s = Inr (e', t)"
    using Cons.prems(2) [of "(k, e)" s "(e', t)"] v a by simp
  have "foreach visit' es t = Inr (es', t')"
    using Cons.IH [OF rec] Cons.prems(2) by simp
  with v' x a show ?case by simp
qed

text \<open>The bound of \<open>install\<close> only cuts a recursion off: a result reached within a
  bound is the result within every larger one.\<close>

lemma install_more_fuel:
  "install n prog s = Inr r \<Longrightarrow> install (Suc n) prog s = Inr r"
proof (induction n arbitrary: s r)
  case 0
  then show ?case by (simp add: install.simps)
next
  case (Suc n)
  obtain nm stk where s: "s = Service nm stk" by (cases s)
  let ?visit = "\<lambda>m. \<lambda>(k, state) tr.
             case sev state of
               None \<Rightarrow> Inl NullDeref
             | Some c \<Rightarrow>
                 and_then (install m prog c) (\<lambda>(c', t).
                   Inr (ExecState (result state) (Some c'), tr @ t))"
  from Suc.prems s obtain stk1 stk2 tr stk3 where
    u: "usuage (prog nm) stk = Inr stk1"
    and f: "foreach (?visit n) stk1 [] = Inr (stk2, tr)"
    and l: "load (prog nm) stk2 = Inr stk3"
    and r: "r = (Service nm stk3, Usuage nm # tr @ [Load nm])"
    by (auto simp: install.simps and_then_eq_Inr)
  have step: "?visit (Suc n) kv t = Inr y" if "?visit n kv t = Inr y" for kv t y
  proof -
    obtain k state where kv: "kv = (k, state)" by (cases kv)
    show ?thesis
    proof (cases "sev state")
      case None
      then show ?thesis using that kv by simp
    next
      case (Some c)
      with that kv obtain c' t' where i: "install n prog c = Inr (c', t')"
        and y: "y = (ExecState (result state) (Some c'), t @ t')"
        by (auto simp: and_then_eq_Inr)
      from Suc.IH [OF i] y Some kv show ?thesis by simp
    qed
  qed
  have "foreach (?visit (Suc n)) stk1 [] = Inr (stk2, tr)"
    using f by (rule foreach_mono [rotated]) (rule step)
  with u l r s show ?case by (simp add: install.simps)
qed

lemma two_entries:
  assumes "map_invariant stk" and "set stk = {(kp, ep), (kq, eq)}" and "kp < kq"
  shows "stk = [(kp, ep), (kq, eq)]"
proof -
  have keys: "fst ` set stk = {kp, kq}" using assms(2) by simp
  have "map fst stk = sorted_list_of_set (fst ` set stk)"
    using assms(1) by (rule map_invariant_sorted_list)
  also have "\<dots> = [kp, kq]"
    using assms(3) by (simp add: keys less_imp_le)
  finally have ks: "map fst stk = [kp, kq]" .
  then obtain x y where xy: "stk = [x, y]" "fst x = kp" "fst y = kq"
    by (cases stk; cases "tl stk"; cases "tl (tl stk)") auto
  have "x = (kp, ep)" "y = (kq, eq)"
    using assms(2,3) xy by (auto simp: doubleton_eq_iff)
  with xy show ?thesis by simp
qed

lemma install_trace_shape:
  "install n prog s = Inr (s', t) \<Longrightarrow> \<exists>mid. t = Usuage (identity s) # mid @ [Load (identity s)]"
  by (cases n; cases s) (auto simp: install.simps and_then_eq_Inr)

lemma uninstall_trace_shape:
  "uninstall prog s = Inr (s', t) \<Longrightarrow> \<exists>mid. t = mid @ [Unload (identity s)]"
  by (cases s) (auto simp: uninstall.simps and_then_eq_Inr)

section \<open>The scenarios, evaluated\<close>

lemma fan_out_dispatcher_added:
  "and_then (add_each [Service ''Y'' [], Service ''X'' []] [])
     (\<lambda>stk. Inr (Service ''ayan::ServiceSecheduler'' stk)) = Inr fan_out_dispatcher"
  by (simp add: add_def fan_out_dispatcher_def)

lemma serve_X: "serve fan_out_program () (Service ''X'' [])
   = Inr (nothing, Service ''X'' [(''X'', ExecState \<lparr>ret = - 1, extra = None\<rparr> None)], [Run ''X''])"
  by (simp add: serve.simps run.simps fan_out_program_def replace_def ExecState_default_def)

lemma serve_Y: "serve fan_out_program () (Service ''Y'' [])
   = Inr (nothing, Service ''Y'' [(''Y'', ExecState \<lparr>ret = 1, extra = None\<rparr> None)], [Run ''Y''])"
  by (simp add: serve.simps run.simps fan_out_program_def replace_def ExecState_default_def)

lemma fan_out_run:
  "run fan_out_program () fan_out_dispatcher
     = Inr (nothing,
            [(''X'', ExecState nothing (Some (Service ''X'' [(''X'', ExecState \<lparr>ret = - 1, extra = None\<rparr> None)]))),
             (''Y'', ExecState nothing (Some (Service ''Y'' [(''Y'', ExecState \<lparr>ret = 1, extra = None\<rparr> None)])))],
            [Run ''ayan::ServiceSecheduler'', Run ''X'', Run ''Y''])"
  unfolding fan_out_dispatcher_def
  by (simp add: run.simps fan_out_program_def serve_X serve_Y)

lemma fan_out_serve:
  "serve fan_out_program () fan_out_dispatcher
     = Inr (nothing,
            Service ''ayan::ServiceSecheduler''
              [(''X'', ExecState nothing (Some (Service ''X'' [(''X'', ExecState \<lparr>ret = - 1, extra = None\<rparr> None)]))),
               (''Y'', ExecState nothing (Some (Service ''Y'' [(''Y'', ExecState \<lparr>ret = 1, extra = None\<rparr> None)]))),
               (''ayan::ServiceSecheduler'', ExecState nothing None)],
            [Run ''ayan::ServiceSecheduler'', Run ''X'', Run ''Y''])"
  using fan_out_run unfolding fan_out_dispatcher_def
  by (simp add: serve.simps replace_def ExecState_default_def)

lemma fan_out_hooks:
  "\<forall>n u l ul rn e st g. fan_out_program n = ServiceImpl u l ul rn \<longrightarrow> rn e st = Inl g \<longrightarrow> g = NullDeref"
  by (auto simp: fan_out_program_def ServiceImpl_default_def split: if_splits)

lemma install_leaf:
  "lifecycle_program nm = ServiceImpl_default \<Longrightarrow>
   install (Suc n) lifecycle_program (Service nm []) = Inr (Service nm [], [Usuage nm, Load nm])"
  by (simp add: install.simps ServiceImpl_default_def)

lemma uninstall_leaf:
  "lifecycle_program nm = ServiceImpl_default \<Longrightarrow>
   uninstall lifecycle_program (Service nm []) = Inr (Service nm [], [Unload nm])"
  by (simp add: uninstall.simps ServiceImpl_default_def)

section \<open>The claims\<close>

subsection \<open>C9: replace, twice on one key\<close>

text \<open>
  Claim C9. For every key and results \<open>r1\<close>, \<open>r2\<close>, on every stack: after
  \<open>replace key r1\<close>, the call \<open>replace key r2\<close> returns \<open>r1\<close> and leaves the entry of
  \<open>key\<close> holding \<open>r2\<close>. No assumption on the stack is needed: the second call walks to
  the place the first one wrote.
\<close>

theorem replace_twice:
  assumes "replace key r1 stk = (old1, stk1)" and "replace key r2 stk1 = (old2, stk2)"
  shows "old2 = r1 \<and> map_option result (map_of stk2 key) = Some r2"
proof -
  define f1 where "f1 = (\<lambda>x. ExecState r1 (sev x))"
  define f2 where "f2 = (\<lambda>x. ExecState r2 (sev x))"
  have stk1: "stk1 = assign key f1 (assign key (\<lambda>x. x) stk)"
    using assms(1) snd_subscript [of key stk]
    by (auto simp: replace_def f1_def split: prod.splits)
  have old2: "old2 = result (fst (subscript key stk1))"
    using assms(2) by (auto simp: replace_def split: prod.splits)
  have "fst (subscript key stk1) = f1 (fst (subscript key (assign key (\<lambda>x. x) stk)))"
    unfolding stk1 by (rule fst_subscript_assign)
  then have first: "old2 = r1"
    using old2 by (simp add: f1_def)
  have stk2: "stk2 = assign key f2 (assign key (\<lambda>x. x) stk1)"
    using assms(2) snd_subscript [of key stk1]
    by (auto simp: replace_def f2_def split: prod.splits)
  have "map_of stk2 key = Some (f2 (fst (subscript key (assign key (\<lambda>x. x) stk1))))"
    unfolding stk2 by (rule map_of_assign_same)
  then have "map_option result (map_of stk2 key) = Some r2"
    by (simp add: f2_def)
  with first show ?thesis by simp
qed

theorem replace_twice_witness:
  "replace ''a'' \<lparr>ret = 1, extra = None\<rparr> [] = (nothing, [(''a'', ExecState \<lparr>ret = 1, extra = None\<rparr> None)])
   \<and> replace ''a'' \<lparr>ret = 2, extra = Some (AnyInt 7)\<rparr> [(''a'', ExecState \<lparr>ret = 1, extra = None\<rparr> None)]
       = (\<lparr>ret = 1, extra = None\<rparr>, [(''a'', ExecState \<lparr>ret = 2, extra = Some (AnyInt 7)\<rparr> None)])
   \<and> map_option result (map_of [(''a'', ExecState \<lparr>ret = 2, extra = Some (AnyInt 7)\<rparr> None)] ''a'')
       = Some \<lparr>ret = 2, extra = Some (AnyInt 7)\<rparr>"
proof -
  have a: "replace ''a'' \<lparr>ret = 1, extra = None\<rparr> [] = (nothing, [(''a'', ExecState \<lparr>ret = 1, extra = None\<rparr> None)])"
    by (simp add: replace_def ExecState_default_def)
  have b: "replace ''a'' \<lparr>ret = 2, extra = Some (AnyInt 7)\<rparr> [(''a'', ExecState \<lparr>ret = 1, extra = None\<rparr> None)]
       = (\<lparr>ret = 1, extra = None\<rparr>, [(''a'', ExecState \<lparr>ret = 2, extra = Some (AnyInt 7)\<rparr> None)])"
    by (simp add: replace_def)
  from replace_twice [OF a b] a b show ?thesis by simp
qed

subsection \<open>C10: invalid() resets every cached result\<close>

text \<open>
  Claim C10. On every stack, whatever the cached results are, \<open>invalid()\<close> (here
  \<open>invalid_all\<close>) leaves every entry with the default result, for which \<open>ill\<close> holds, and
  keeps the keys and the service pointers. The count that the underlying \<open>invalid_if\<close>
  reports for the condition that is always true is the number of entries of the stack:
  every entry counts, also one whose result was the default one already.
\<close>

theorem invalid_all_resets:
  "\<exists>stk'. invalid_if (\<lambda>_. Inr True) stk = Inr (stk', length stk)
     \<and> invalid_all stk = Inr stk'
     \<and> map fst stk' = map fst stk
     \<and> map (\<lambda>(k, s). sev s) stk' = map (\<lambda>(k, s). sev s) stk
     \<and> (\<forall>(k, s) \<in> set stk'. result s = nothing \<and> ill (result s))"
proof -
  let ?stk' = "map (\<lambda>(k, s). (k, ExecState nothing (sev s))) stk"
  have "invalid_if (\<lambda>_. Inr True) stk = Inr (?stk', length stk)"
    by (rule invalid_if_True)
  moreover from this have "invalid_all stk = Inr ?stk'"
    by (simp add: invalid_all_def)
  moreover have "map fst ?stk' = map fst stk"
    by (induction stk) auto
  moreover have "map (\<lambda>(k, s). sev s) ?stk' = map (\<lambda>(k, s). sev s) stk"
    by (induction stk) auto
  moreover have "\<forall>(k, s) \<in> set ?stk'. result s = nothing \<and> ill (result s)"
    by (auto simp: ill_def nothing_def)
  ultimately show ?thesis by blast
qed

theorem invalid_all_resets_witness:
  "\<exists>stk'. invalid_if (\<lambda>_. Inr True)
            [(''a'', ExecState \<lparr>ret = 1, extra = None\<rparr> None), (''b'', ExecState nothing None)]
          = Inr (stk', 2)
     \<and> invalid_all [(''a'', ExecState \<lparr>ret = 1, extra = None\<rparr> None), (''b'', ExecState nothing None)]
          = Inr stk'
     \<and> list_all (\<lambda>(k, s). ill (result s)) stk'"
  using invalid_all_resets
    [of "[(''a'', ExecState \<lparr>ret = 1, extra = None\<rparr> None), (''b'', ExecState nothing None)]"]
  by (auto simp: list_all_iff)

subsection \<open>C7: the order of a traversal\<close>

text \<open>
  Claim C7. \<open>foreach\<close> visits the entries of a stack in the strictly ascending order of
  their keys. After any sequence of \<open>add\<close> calls that order is the sorted list of the set
  of the keys there were and the identities added; on the empty stack, two sequences that
  add the same set of identities, in whatever order, are visited in the same order. The witness adds
  \<open>b, a, c\<close> and \<open>c, b, a\<close>; both are visited as \<open>a, b, c\<close>.
\<close>

theorem foreach_ascending:
  "(map_invariant stk \<longrightarrow>
      visit_order stk = Inr (stk, map fst stk) \<and> sorted_wrt (<) (map fst stk)
      \<and> (\<exists>stk'. add_each xs stk = Inr stk'
            \<and> visit_order stk'
                = Inr (stk', sorted_list_of_set (identity ` set xs \<union> fst ` set stk))))
   \<and> (\<exists>stk'. add_each xs [] = Inr stk'
          \<and> visit_order stk' = Inr (stk', sorted_list_of_set (identity ` set xs)))
   \<and> (identity ` set xs = identity ` set ys \<longrightarrow>
        (\<exists>sx sy seen. add_each xs [] = Inr sx \<and> add_each ys [] = Inr sy
           \<and> visit_order sx = Inr (sx, seen) \<and> visit_order sy = Inr (sy, seen)))"
proof -
  define built where
    "built zs s0 = fold (\<lambda>s. assign (identity s) (\<lambda>_. ExecState nothing (Some s))) zs s0"
    for zs and s0 :: ExecuteStack
  have built: "add_each zs s0 = Inr (built zs s0)" for zs s0
    by (simp add: add_each_eq built_def)
  have order: "visit_order (built zs s0)
      = Inr (built zs s0, sorted_list_of_set (identity ` set zs \<union> fst ` set s0))"
    if "map_invariant s0" for zs s0
  proof -
    have "map_invariant (built zs s0)"
      unfolding built_def using that by (rule fold_assign_invariant)
    then have "map fst (built zs s0) = sorted_list_of_set (fst ` set (built zs s0))"
      by (rule map_invariant_sorted_list)
    also have "fst ` set (built zs s0) = identity ` set zs \<union> fst ` set s0"
      unfolding built_def by (rule fold_assign_keys)
    finally show ?thesis by (simp add: visit_order_eq)
  qed
  have empty: "visit_order (built zs []) = Inr (built zs [], sorted_list_of_set (identity ` set zs))"
    for zs
    using order [of "[]" zs] by (simp add: map_invariant_def)
  have first: "visit_order stk = Inr (stk, map fst stk) \<and> sorted_wrt (<) (map fst stk)
      \<and> (\<exists>stk'. add_each xs stk = Inr stk'
            \<and> visit_order stk'
                = Inr (stk', sorted_list_of_set (identity ` set xs \<union> fst ` set stk)))"
    if inv: "map_invariant stk"
  proof -
    have "visit_order stk = Inr (stk, map fst stk)" by (rule visit_order_eq)
    moreover have "sorted_wrt (<) (map fst stk)"
      using inv by (simp add: map_invariant_def)
    moreover have "\<exists>stk'. add_each xs stk = Inr stk'
            \<and> visit_order stk'
                = Inr (stk', sorted_list_of_set (identity ` set xs \<union> fst ` set stk))"
      using built [of xs stk] order [OF inv, of xs] by blast
    ultimately show ?thesis by simp
  qed
  have second: "\<exists>stk'. add_each xs [] = Inr stk'
          \<and> visit_order stk' = Inr (stk', sorted_list_of_set (identity ` set xs))"
    using built [of xs "[]"] empty [of xs] by blast
  have third: "\<exists>sx sy seen. add_each xs [] = Inr sx \<and> add_each ys [] = Inr sy
           \<and> visit_order sx = Inr (sx, seen) \<and> visit_order sy = Inr (sy, seen)"
    if "identity ` set xs = identity ` set ys"
    using built [of xs "[]"] built [of ys "[]"] empty [of xs] empty [of ys] that by metis
  from first second third show ?thesis by blast
qed

theorem foreach_ascending_witness:
  "map_invariant [(''a'', ExecState nothing (Some (Service ''a'' []))),
      (''b'', ExecState nothing (Some (Service ''b'' []))), (''c'', ExecState nothing (Some (Service ''c'' [])))]
   \<and> (\<exists>s1 s2. add_each [Service ''b'' [], Service ''a'' [], Service ''c'' []] [] = Inr s1
      \<and> add_each [Service ''c'' [], Service ''b'' [], Service ''a'' []] [] = Inr s2
      \<and> s1 = [(''a'', ExecState nothing (Some (Service ''a'' []))),
          (''b'', ExecState nothing (Some (Service ''b'' []))), (''c'', ExecState nothing (Some (Service ''c'' [])))]
      \<and> s2 = s1
      \<and> visit_order s1 = Inr (s1, [''a'', ''b'', ''c'']))"
proof -
  let ?xs = "[Service ''b'' [], Service ''a'' [], Service ''c'' []]"
  let ?ys = "[Service ''c'' [], Service ''b'' [], Service ''a'' []]"
  let ?stk = "[(''a'', ExecState nothing (Some (Service ''a'' []))),
      (''b'', ExecState nothing (Some (Service ''b'' []))), (''c'', ExecState nothing (Some (Service ''c'' [])))]"
  have inv: "map_invariant ?stk" by (simp add: map_invariant_def)
  have same: "identity ` set ?xs = identity ` set ?ys" by auto
  have x: "add_each ?xs [] = Inr ?stk" by (simp add: add_def)
  have y: "add_each ?ys [] = Inr ?stk" by (simp add: add_def)
  note inst = foreach_ascending [of ?stk ?xs ?ys]
  from inst inv have order: "visit_order ?stk = Inr (?stk, map fst ?stk)" by blast
  from inst same obtain sx sy seen where "add_each ?xs [] = Inr sx" "add_each ?ys [] = Inr sy"
    "visit_order sx = Inr (sx, seen)" "visit_order sy = Inr (sy, seen)"
    by blast
  with x y order inv show ?thesis by simp
qed

subsection \<open>C8: one entry per identity\<close>

text \<open>
  Claim C8. A stack holds at most one entry for a key, and every operation of
  \<^verbatim>\<open>ServiceManager\<close> that returns keeps it so. After \<open>add\<close> of a service and then of
  another one of the same identity, the stack has exactly one entry for that identity; it
  points to the second service and its cached result is the default one.
  The last part is about \<^verbatim>\<open>stack_[key]\<close> itself, the only way in which \<open>add\<close>,
  \<open>require\<close> and \<open>replace\<close> write to the stack: neither the insertion of a default entry
  nor a write through the reference breaks the order. (\<open>require\<close> as defined above does
  not get as far as its write, so its own part holds for want of a case.)
\<close>

theorem one_entry_per_identity:
  assumes "map_invariant stk"
  shows "distinct (map fst stk)
    \<and> (\<forall>A A'. identity A = identity A' \<longrightarrow>
          (\<exists>s1 s2. add (Some A) stk = Inr s1 \<and> add (Some A') s1 = Inr s2
             \<and> map_invariant s2
             \<and> filter (\<lambda>(k, e). k = identity A) s2 = [(identity A, ExecState nothing (Some A'))]))
    \<and> (\<forall>p stk'. add p stk = Inr stk' \<longrightarrow> map_invariant stk')
    \<and> (\<forall>reg nm stk'. require reg nm stk = Inr stk' \<longrightarrow> map_invariant stk')
    \<and> map_invariant (remove_all stk)
    \<and> (\<forall>nm stk' b. remove_service nm stk = Inr (stk', b) \<longrightarrow> map_invariant stk')
    \<and> (\<forall>cond stk' n. invalid_if cond stk = Inr (stk', n) \<longrightarrow> map_invariant stk')
    \<and> (\<forall>cond stk' n. invalid_if_ret cond stk = Inr (stk', n) \<longrightarrow> map_invariant stk')
    \<and> (\<forall>nm stk' b. invalid_name nm stk = Inr (stk', b) \<longrightarrow> map_invariant stk')
    \<and> (\<forall>stk'. invalid_all stk = Inr stk' \<longrightarrow> map_invariant stk')
    \<and> (\<forall>key newer. map_invariant (snd (replace key newer stk)))
    \<and> (\<forall>visit s stk' s'. foreach visit stk s = Inr (stk', s') \<longrightarrow> map_invariant stk')
    \<and> (\<forall>key f. map_invariant (assign key f stk) \<and> map_invariant (snd (subscript key stk)))"
proof -
  have distinct: "distinct (map fst stk)"
    using assms by (rule map_invariant_distinct)
  have twice: "\<exists>s1 s2. add (Some A) stk = Inr s1 \<and> add (Some A') s1 = Inr s2
             \<and> map_invariant s2
             \<and> filter (\<lambda>(k, e). k = identity A) s2 = [(identity A, ExecState nothing (Some A'))]"
    if same: "identity A = identity A'" for A A'
  proof -
    let ?s1 = "assign (identity A) (\<lambda>_. ExecState nothing (Some A)) stk"
    let ?s2 = "assign (identity A) (\<lambda>_. ExecState nothing (Some A')) ?s1"
    have a1: "add (Some A) stk = Inr ?s1" by (rule add_Some)
    have a2: "add (Some A') ?s1 = Inr ?s2" using same by (simp add: add_Some)
    have inv: "map_invariant ?s2"
      using assms by (intro map_invariant_assign)
    have "map_of ?s2 (identity A) = Some (ExecState nothing (Some A'))"
      by (simp add: map_of_assign_same)
    with map_invariant_distinct [OF inv]
    have "filter (\<lambda>(k, e). k = identity A) ?s2 = [(identity A, ExecState nothing (Some A'))]"
      by (rule filter_key_unique)
    with a1 a2 inv show ?thesis by blast
  qed
  have add: "map_invariant stk'" if "add p stk = Inr stk'" for p stk'
    using that assms by (auto simp: add_def map_invariant_assign split: option.splits)
  have require: "map_invariant stk'" if "require reg nm stk = Inr stk'" for reg nm stk'
    using that by (auto simp: require_def split: option.splits)
  have remove_all: "map_invariant (remove_all stk)"
    by (simp add: remove_all_def map_invariant_def)
  have remove: "map_invariant stk'" if "remove_service nm stk = Inr (stk', b)" for nm stk' b
    using that assms
    by (auto simp: remove_service_def and_then_eq_Inr dest: erase_if_identity_invariant)
  have invalid_if: "map_invariant stk'" if "invalid_if cond stk = Inr (stk', n)" for cond stk' n
    using invalid_if_keys [OF that] assms by (rule map_invariant_keys)
  have invalid_if_ret: "map_invariant stk'" if "invalid_if_ret cond stk = Inr (stk', n)" for cond stk' n
    using that invalid_if unfolding invalid_if_ret_def by blast
  have invalid_name: "map_invariant stk'" if "invalid_name nm stk = Inr (stk', b)" for nm stk' b
    using that invalid_if by (auto simp: invalid_name_def and_then_eq_Inr)
  have invalid_all: "map_invariant stk'" if "invalid_all stk = Inr stk'" for stk'
    using that invalid_if by (auto simp: invalid_all_def and_then_eq_Inr)
  have replace: "map_invariant (snd (replace key newer stk))" for key newer
    using assms by (simp add: replace_snd map_invariant_assign)
  have foreach: "map_invariant stk'" if "foreach visit stk s = Inr (stk', s')"
    for visit :: "string \<times> ExecState \<Rightarrow> 's \<Rightarrow> fault + (ExecState \<times> 's)" and s stk' s'
    using foreach_keys [OF that] assms by (rule map_invariant_keys)
  have subscripts: "map_invariant (assign key f stk) \<and> map_invariant (snd (subscript key stk))"
    for key f
    using assms by (simp add: snd_subscript map_invariant_assign)
  show ?thesis
    using distinct twice add require remove_all remove invalid_if invalid_if_ret
      invalid_name invalid_all replace foreach subscripts
    by blast
qed


theorem one_entry_per_identity_witness:
  "map_invariant [(''B'', ExecState \<lparr>ret = 1, extra = None\<rparr> (Some (Service ''B'' [])))]
   \<and> (\<exists>s1 s2.
        add (Some (Service ''A'' [])) [(''B'', ExecState \<lparr>ret = 1, extra = None\<rparr> (Some (Service ''B'' [])))] = Inr s1
      \<and> add (Some (Service ''A'' [(''x'', ExecState_default)])) s1 = Inr s2
      \<and> filter (\<lambda>(k, e). k = ''A'') s2
          = [(''A'', ExecState nothing (Some (Service ''A'' [(''x'', ExecState_default)])))])"
proof -
  have inv: "map_invariant [(''B'', ExecState \<lparr>ret = 1, extra = None\<rparr> (Some (Service ''B'' [])))]"
    by (simp add: map_invariant_def)
  from one_entry_per_identity [OF inv, THEN conjunct2, THEN conjunct1] have
    "\<forall>A A'. identity A = identity A' \<longrightarrow>
          (\<exists>s1 s2. add (Some A) [(''B'', ExecState \<lparr>ret = 1, extra = None\<rparr> (Some (Service ''B'' [])))] = Inr s1
             \<and> add (Some A') s1 = Inr s2
             \<and> map_invariant s2
             \<and> filter (\<lambda>(k, e). k = identity A) s2 = [(identity A, ExecState nothing (Some A'))])" .
  from this [rule_format, of "Service ''A'' []" "Service ''A'' [(''x'', ExecState_default)]"] inv
  show ?thesis by auto
qed

subsection \<open>C3: require of a name that is not registered\<close>

text \<open>
  Claim C3 says that constructing a service by a name that was never registered yields an
  explicit error value and never terminates the process. The code has no such value:
  \<^verbatim>\<open>require\<close> returns \<^verbatim>\<open>Self &\<close>, and the lookup is \<^verbatim>\<open>at\<close>, which throws inside a
  \<^verbatim>\<open>noexcept\<close> function. The counterexample is the lookup of \<open>NoSuchService\<close> in the empty
  registry.

  Claim C3, amended. Let the registry be the result of any sequence of registrations
  (\<open>make_available\<close>) on the empty registry. For every name that is not among the
  registered ones, \<^verbatim>\<open>require\<close> terminates the process, whatever the stack; it returns no
  value and no stack.
\<close>

theorem require_unregistered:
  assumes "service_name \<notin> set names"
  shows "require (fold make_available names Map.empty) service_name stk = Inl Terminated"
proof -
  have "service_name \<notin> dom (fold make_available names Map.empty)"
    using assms by (simp add: fold_make_available_dom)
  then have "fold make_available names Map.empty service_name = None"
    by (simp add: domIff)
  then show ?thesis by (simp add: require_def)
qed

theorem require_unregistered_witness:
  "''NoSuchService'' \<notin> set [''Echo'', ''Ping'']
   \<and> require (fold make_available [''Echo'', ''Ping''] Map.empty) ''NoSuchService'' [] = Inl Terminated"
proof -
  have absent: "''NoSuchService'' \<notin> set [''Echo'', ''Ping'']" by simp
  from require_unregistered [OF absent] absent show ?thesis by blast
qed

theorem require_unregistered_counterexample:
  "require Map.empty ''NoSuchService'' [] = Inl Terminated"
  by (simp add: require_def)

subsection \<open>C4: replace on a key without an entry\<close>

text \<open>
  Claim C4. When the stack has no entry for \<open>key\<close>, \<open>replace key newer\<close> returns the
  default result and leaves an entry for \<open>key\<close> whose service pointer is null (its result is
  \<open>newer\<close>); the other entries stay. From then on no traversal that calls through the
  service pointers returns: \<^verbatim>\<open>remove\<close> and \<^verbatim>\<open>invalid(name)\<close> dereference the null
  pointer; so does every \<open>foreach\<close> whose visitor calls through the pointer, unless an
  earlier visit faults first; \<open>uninstall\<close>, the dispatcher's \<open>run\<close> and \<open>serve\<close>, and
  \<open>install\<close> (for any bound on its depth) on a service with that stack do not return.
\<close>

theorem replace_unknown_key:
  assumes "key \<notin> fst ` set stk"
  shows "\<exists>stk'. replace key newer stk = (nothing, stk')
     \<and> map_of stk' key = Some (ExecState newer None)
     \<and> (\<forall>k. k \<noteq> key \<longrightarrow> map_of stk' k = map_of stk k)
     \<and> remove_service nm stk' = Inl NullDeref
     \<and> invalid_name nm stk' = Inl NullDeref
     \<and> (\<forall>visit s. (\<forall>k x t. sev x = None \<longrightarrow> visit (k, x) t = Inl NullDeref)
            \<longrightarrow> isl (foreach visit stk' (s :: 's)))
     \<and> (\<forall>visit s. (\<forall>k x t. sev x = None \<longrightarrow> visit (k, x) t = Inl NullDeref)
                 \<and> (\<forall>kv t f. visit kv t = Inl f \<longrightarrow> f = NullDeref)
            \<longrightarrow> foreach visit stk' (s :: 's) = Inl NullDeref)
     \<and> (\<forall>(prog :: 'ev program) owner. isl (uninstall prog (Service owner stk')))
     \<and> (\<forall>(prog :: 'ev program) owner event. prog owner = ServiceSecheduler
            \<longrightarrow> isl (run prog event (Service owner stk')) \<and> isl (serve prog event (Service owner stk')))
     \<and> (\<forall>(prog :: 'ev program) owner stk0 n. usuage (prog owner) stk0 = Inr stk'
            \<longrightarrow> isl (install n prog (Service owner stk0)))"
proof -
  define stk' where "stk' = assign key (\<lambda>x. ExecState newer (sev x)) stk"
  have default: "fst (subscript key stk) = ExecState_default"
    using assms by (rule fst_subscript_absent)
  have rep: "replace key newer stk = (nothing, stk')"
    using replace_fst [of key newer stk] replace_snd [of key newer stk] default
    by (cases "replace key newer stk") (simp add: stk'_def ExecState_default_def)
  have entry: "map_of stk' key = Some (ExecState newer None)"
    unfolding stk'_def by (simp add: map_of_assign_same default ExecState_default_def)
  have others: "\<forall>k. k \<noteq> key \<longrightarrow> map_of stk' k = map_of stk k"
    unfolding stk'_def by (simp add: map_of_assign_other)
  from entry have mem: "(key, ExecState newer None) \<in> set stk'"
    by (rule map_of_SomeD)
  have null: "sev (ExecState newer None) = None" by simp
  have remove: "remove_service nm stk' = Inl NullDeref"
    using erase_if_identity_null [OF mem null] by (simp add: remove_service_def)
  have invalid: "invalid_name nm stk' = Inl NullDeref"
    unfolding invalid_name_def
    by (simp add: invalid_if_null [OF mem null])
  have each: "isl (foreach visit stk' s)"
    if "\<forall>k x t. sev x = None \<longrightarrow> visit (k, x) t = Inl NullDeref"
    for visit :: "string \<times> ExecState \<Rightarrow> 's \<Rightarrow> fault + (ExecState \<times> 's)" and s
    using that by (intro foreach_null [OF mem null]) simp
  have each_only: "foreach visit stk' s = Inl NullDeref"
    if "(\<forall>k x t. sev x = None \<longrightarrow> visit (k, x) t = Inl NullDeref)
                 \<and> (\<forall>kv t f. visit kv t = Inl f \<longrightarrow> f = NullDeref)"
    for visit :: "string \<times> ExecState \<Rightarrow> 's \<Rightarrow> fault + (ExecState \<times> 's)" and s
    using that by (intro foreach_null_only [OF mem null]) auto
  have un: "isl (uninstall prog (Service owner stk'))" for prog :: "'ev program" and owner
    by (rule uninstall_null [OF mem null])
  have rn: "isl (run prog event (Service owner stk')) \<and> isl (serve prog event (Service owner stk'))"
    if "prog owner = ServiceSecheduler" for prog :: "'ev program" and owner event
    using run_null [of key "ExecState newer None" stk' prog owner event] mem that serve_Inl
    by auto
  have ins: "isl (install n prog (Service owner stk0))"
    if "usuage (prog owner) stk0 = Inr stk'" for prog :: "'ev program" and owner stk0 n
    using install_null [of prog owner stk0 stk' key "ExecState newer None" n] that mem
    by simp
  from rep entry others remove invalid each each_only un rn ins show ?thesis
    by blast
qed

theorem replace_unknown_key_witness:
  "''a'' \<notin> fst ` set [(''b'', ExecState nothing (Some (Service ''b'' [])))]
   \<and> replace ''a'' \<lparr>ret = 1, extra = None\<rparr> [(''b'', ExecState nothing (Some (Service ''b'' [])))]
       = (nothing, [(''a'', ExecState \<lparr>ret = 1, extra = None\<rparr> None),
                    (''b'', ExecState nothing (Some (Service ''b'' [])))])
   \<and> remove_service ''b'' [(''a'', ExecState \<lparr>ret = 1, extra = None\<rparr> None),
                    (''b'', ExecState nothing (Some (Service ''b'' [])))] = Inl NullDeref
   \<and> isl (uninstall (\<lambda>_. ServiceImpl_default :: unit impl)
          (Service ''owner'' [(''a'', ExecState \<lparr>ret = 1, extra = None\<rparr> None),
                    (''b'', ExecState nothing (Some (Service ''b'' [])))]))"
proof -
  let ?stk = "[(''b'', ExecState nothing (Some (Service ''b'' [])))]"
  let ?r = "\<lparr>ret = 1, extra = None\<rparr>"
  have absent: "''a'' \<notin> fst ` set ?stk" by simp
  have rep: "replace ''a'' ?r ?stk = (nothing, [(''a'', ExecState ?r None),
                    (''b'', ExecState nothing (Some (Service ''b'' [])))])"
    by (simp add: replace_def ExecState_default_def)
  from replace_unknown_key [OF absent, of ?r "''b''", where ?'s = unit and ?'ev = unit] rep absent
  show ?thesis by auto
qed

subsection \<open>C1: what serve does with the result of run\<close>

text \<open>
  Claim C1 says that \<open>serve\<close> calls the \<^verbatim>\<open>run\<close> hook, swaps the new result into this
  service's entry in the stack of its parent, and returns the new result. In the code
  \<open>serve\<close> has no access to a parent: \<^verbatim>\<open>mgr_\<close> is the member of the service that is
  serving, and the value returned is the one \<open>replace\<close> returns. The counterexample is the
  fan-out scenario: \<open>Y\<close> computes the code \<open>1\<close>, \<open>serve\<close> on \<open>Y\<close> returns the default result
  and leaves the code \<open>1\<close> in the stack of \<open>Y\<close> itself; after \<open>serve\<close> on the dispatcher the
  dispatcher's entry for \<open>Y\<close> holds the default result.

  Claim C1, amended. For every service and event, \<open>serve\<close> first calls the \<^verbatim>\<open>run\<close> hook of
  the concrete type; when the hook faults, so does \<open>serve\<close>; when it returns, \<open>serve\<close> swaps
  the new result, by \<open>replace\<close>, into the entry keyed by the service's identity in the
  service's own stack as \<^verbatim>\<open>run\<close> left it, and leaves every other entry alone. The
  statement fixes nothing about the result that \<open>serve\<close> hands to its caller.
\<close>

theorem serve_caches_in_own_stack:
  "(\<forall>f. run prog event (Service nm stk) = Inl f \<longrightarrow> serve prog event (Service nm stk) = Inl f)
   \<and> (\<forall>newer stk1 tr. run prog event (Service nm stk) = Inr (newer, stk1, tr) \<longrightarrow>
        (\<exists>old stk2. serve prog event (Service nm stk) = Inr (old, Service nm stk2, tr)
           \<and> stk2 = snd (replace nm newer stk1)
           \<and> map_option result (map_of stk2 nm) = Some newer
           \<and> (\<forall>k. k \<noteq> nm \<longrightarrow> map_of stk2 k = map_of stk1 k)
           \<and> (\<exists>rest. tr = Run nm # rest)))
   \<and> (\<forall>u l ul r. prog nm = ServiceImpl u l ul r \<longrightarrow>
        run prog event (Service nm stk)
          = and_then (r event stk) (\<lambda>(res, stk1). Inr (res, stk1, [Run nm])))"
proof -
  have fault: "serve prog event (Service nm stk) = Inl f"
    if "run prog event (Service nm stk) = Inl f" for f
    using that by (simp add: serve_eq)
  have ok: "\<exists>old stk2. serve prog event (Service nm stk) = Inr (old, Service nm stk2, tr)
           \<and> stk2 = snd (replace nm newer stk1)
           \<and> map_option result (map_of stk2 nm) = Some newer
           \<and> (\<forall>k. k \<noteq> nm \<longrightarrow> map_of stk2 k = map_of stk1 k)
           \<and> (\<exists>rest. tr = Run nm # rest)"
    if run: "run prog event (Service nm stk) = Inr (newer, stk1, tr)" for newer stk1 tr
  proof -
    have "serve prog event (Service nm stk)
        = Inr (fst (replace nm newer stk1), Service nm (snd (replace nm newer stk1)), tr)"
      using run by (simp add: serve_eq)
    moreover have "map_option result (map_of (snd (replace nm newer stk1)) nm) = Some newer"
      by (rule replace_entry)
    moreover have "\<forall>k. k \<noteq> nm \<longrightarrow> map_of (snd (replace nm newer stk1)) k = map_of stk1 k"
      by (simp add: replace_others)
    moreover have "\<exists>rest. tr = Run nm # rest"
      using run by (rule run_trace)
    ultimately show ?thesis by blast
  qed
  have hook: "run prog event (Service nm stk)
          = and_then (r event stk) (\<lambda>(res, stk1). Inr (res, stk1, [Run nm]))"
    if "prog nm = ServiceImpl u l ul r" for u l ul r
    using that by (simp add: run.simps)
  from fault ok hook show ?thesis by blast
qed

theorem serve_caches_in_own_stack_witness:
  "run fan_out_program () (Service ''Y'' []) = Inr (\<lparr>ret = 1, extra = None\<rparr>, [], [Run ''Y''])
   \<and> (\<exists>old. serve fan_out_program () (Service ''Y'' [])
        = Inr (old, Service ''Y'' [(''Y'', ExecState \<lparr>ret = 1, extra = None\<rparr> None)], [Run ''Y'']))"
proof -
  have run: "run fan_out_program () (Service ''Y'' []) = Inr (\<lparr>ret = 1, extra = None\<rparr>, [], [Run ''Y''])"
    by (simp add: run.simps fan_out_program_def)
  have rep: "snd (replace ''Y'' \<lparr>ret = 1, extra = None\<rparr> [])
      = [(''Y'', ExecState \<lparr>ret = 1, extra = None\<rparr> None)]"
    by (simp add: replace_def ExecState_default_def)
  note inst = serve_caches_in_own_stack [of fan_out_program "()" "''Y''" "[]",
      THEN conjunct2, THEN conjunct1, rule_format, OF run]
  from inst run rep show ?thesis
    by (elim exE conjE) simp
qed

theorem serve_returns_computed_counterexample:
  "run fan_out_program () (Service ''Y'' []) = Inr (\<lparr>ret = 1, extra = None\<rparr>, [], [Run ''Y''])
   \<and> serve fan_out_program () (Service ''Y'' [])
       = Inr (nothing, Service ''Y'' [(''Y'', ExecState \<lparr>ret = 1, extra = None\<rparr> None)], [Run ''Y''])
   \<and> nothing \<noteq> \<lparr>ret = 1, extra = None\<rparr>
   \<and> (\<exists>stk'. serve fan_out_program () fan_out_dispatcher
                = Inr (nothing, Service ''ayan::ServiceSecheduler'' stk', [Run ''ayan::ServiceSecheduler'', Run ''X'', Run ''Y''])
          \<and> map_of stk' ''Y''
              = Some (ExecState nothing (Some (Service ''Y'' [(''Y'', ExecState \<lparr>ret = 1, extra = None\<rparr> None)]))))"
proof -
  have run: "run fan_out_program () (Service ''Y'' []) = Inr (\<lparr>ret = 1, extra = None\<rparr>, [], [Run ''Y''])"
    by (simp add: run.simps fan_out_program_def)
  have neq: "nothing \<noteq> \<lparr>ret = 1, extra = None\<rparr>"
    by (simp add: nothing_def NoSignaficantRet_def)
  show ?thesis
    using run serve_Y neq fan_out_serve by simp
qed

subsection \<open>C2: one serve of a dispatcher with a failing and a succeeding child\<close>

text \<open>
  Claim C2 says that after one \<open>serve\<close> of the dispatcher the entry of \<open>X\<close> in the
  dispatcher's stack holds a failure, the entry of \<open>Y\<close> a success, that the fan-out goes on
  after the failing child, and that the dispatcher returns the default result. The
  evaluation of the code on the fan-out scenario: both hooks run, in the order \<open>X\<close>, \<open>Y\<close>,
  and the dispatcher returns the default result; but both entries of the dispatcher's stack
  hold the default result, which is neither a failure nor a success. The codes \<open>-1\<close> and
  \<open>1\<close> are in the children's own stacks.
\<close>

theorem fan_out_first_serve:
  "serve fan_out_program () fan_out_dispatcher
     = Inr (nothing,
            Service ''ayan::ServiceSecheduler''
              [(''X'', ExecState nothing (Some (Service ''X'' [(''X'', ExecState \<lparr>ret = - 1, extra = None\<rparr> None)]))),
               (''Y'', ExecState nothing (Some (Service ''Y'' [(''Y'', ExecState \<lparr>ret = 1, extra = None\<rparr> None)]))),
               (''ayan::ServiceSecheduler'', ExecState nothing None)],
            [Run ''ayan::ServiceSecheduler'', Run ''X'', Run ''Y''])
   \<and> \<not> failed nothing \<and> \<not> success nothing \<and> ill nothing
   \<and> failed \<lparr>ret = - 1, extra = None\<rparr> \<and> success \<lparr>ret = 1, extra = None\<rparr>"
proof -
  have codes: "\<not> failed nothing \<and> \<not> success nothing \<and> ill nothing
      \<and> failed \<lparr>ret = - 1, extra = None\<rparr> \<and> success \<lparr>ret = 1, extra = None\<rparr>"
    by (simp add: failed_def success_def ill_def nothing_def NoSignaficantRet_def)
  from fan_out_serve codes show ?thesis by simp
qed

subsection \<open>C5: the entry serve leaves under the service's own identity\<close>

text \<open>
  Claim C5. Every \<open>serve\<close> that returns leaves, in the stack of the service itself, an
  entry keyed by the service's identity. When the stack had no such entry, the new one has
  a null service pointer. For a dispatcher this means that no later \<open>serve\<close> returns: its
  \<^verbatim>\<open>run\<close> calls \<open>serve\<close> through every entry's pointer, and when no hook of a child faults in
  another way, the fault is the null dereference.
\<close>

theorem serve_leaves_null_self_entry:
  assumes "serve prog event (Service nm stk) = Inr (r, s', tr)"
  shows "identity s' = nm \<and> nm \<in> fst ` set (mgr s')
     \<and> (\<forall>newer stk1 tr1. run prog event (Service nm stk) = Inr (newer, stk1, tr1)
           \<longrightarrow> nm \<notin> fst ` set stk1
           \<longrightarrow> map_of (mgr s') nm = Some (ExecState newer None))
     \<and> (prog nm = ServiceSecheduler \<longrightarrow> nm \<notin> fst ` set stk \<longrightarrow>
           map_of (mgr s') nm = Some (ExecState nothing None)
           \<and> (\<forall>event'. isl (run prog event' s') \<and> isl (serve prog event' s'))
           \<and> ((\<forall>n u l ul rn e st g. prog n = ServiceImpl u l ul rn \<longrightarrow> rn e st = Inl g \<longrightarrow> g = NullDeref)
                 \<longrightarrow> (\<forall>event'. serve prog event' s' = Inl NullDeref)))"
proof -
  from assms obtain newer stk1 where
    run: "run prog event (Service nm stk) = Inr (newer, stk1, tr)"
    and s': "s' = Service nm (snd (replace nm newer stk1))"
    by (cases "run prog event (Service nm stk)") (auto simp: serve_eq)
  let ?stk2 = "snd (replace nm newer stk1)"
  have stk2: "?stk2 = assign nm (\<lambda>x. ExecState newer (sev x)) stk1"
    by (rule replace_snd)
  have ident: "identity s' = nm" using s' by simp
  have key: "nm \<in> fst ` set (mgr s')"
    using s' by (simp add: stk2 keys_assign)
  have fresh: "map_of (mgr s') nm = Some (ExecState newer None)" if "nm \<notin> fst ` set stk1"
    using s' fst_subscript_absent [OF that]
    by (simp add: stk2 map_of_assign_same ExecState_default_def)
  have general: "\<forall>newer' stk1' tr1. run prog event (Service nm stk) = Inr (newer', stk1', tr1)
           \<longrightarrow> nm \<notin> fst ` set stk1'
           \<longrightarrow> map_of (mgr s') nm = Some (ExecState newer' None)"
    using run fresh by simp
  have sched: "map_of (mgr s') nm = Some (ExecState nothing None)
           \<and> (\<forall>event'. isl (run prog event' s') \<and> isl (serve prog event' s'))
           \<and> ((\<forall>n u l ul rn e st g. prog n = ServiceImpl u l ul rn \<longrightarrow> rn e st = Inl g \<longrightarrow> g = NullDeref)
                 \<longrightarrow> (\<forall>event'. serve prog event' s' = Inl NullDeref))"
    if disp: "prog nm = ServiceSecheduler" and absent: "nm \<notin> fst ` set stk"
  proof -
    let ?visit = "\<lambda>(k, exec_state) tr.
                  case sev exec_state of
                    None \<Rightarrow> Inl NullDeref
                  | Some c \<Rightarrow>
                      and_then (serve prog event c) (\<lambda>(r, c', t).
                        Inr (ExecState r (Some c'), tr @ t))"
    from run disp obtain tr0 where
      each: "foreach ?visit stk [] = Inr (stk1, tr0)" and newer: "newer = nothing"
      by (cases "foreach ?visit stk []") (auto simp: run.simps)
    have "map fst stk1 = map fst stk" using each by (rule foreach_keys)
    then have "fst ` set stk1 = fst ` set stk" by (metis set_map)
    with absent have absent1: "nm \<notin> fst ` set stk1" by simp
    have entry: "map_of (mgr s') nm = Some (ExecState nothing None)"
      using fresh [OF absent1] newer by simp
    then have mem: "(nm, ExecState nothing None) \<in> set (mgr s')"
      by (rule map_of_SomeD)
    have fails: "isl (run prog event' s') \<and> isl (serve prog event' s')" for event'
    proof -
      have "isl (run prog event' (Service nm (mgr s')))"
        using mem disp by (intro run_null [of nm "ExecState nothing None"]) simp_all
      then show ?thesis using s' serve_Inl [of prog event' nm "mgr s'"] by simp
    qed
    have null: "serve prog event' s' = Inl NullDeref"
      if "\<forall>n u l ul rn e st g. prog n = ServiceImpl u l ul rn \<longrightarrow> rn e st = Inl g \<longrightarrow> g = NullDeref"
      for event'
    proof -
      from fails [of event'] obtain f where "serve prog event' s' = Inl f"
        by (auto simp: isl_def)
      with run_serve_fault_null(2) [OF that this] show ?thesis by simp
    qed
    from entry fails null show ?thesis by blast
  qed
  from ident key general sched show ?thesis by blast
qed

theorem serve_leaves_null_self_entry_witness:
  "serve fan_out_program () fan_out_dispatcher
     = Inr (nothing,
            Service ''ayan::ServiceSecheduler''
              [(''X'', ExecState nothing (Some (Service ''X'' [(''X'', ExecState \<lparr>ret = - 1, extra = None\<rparr> None)]))),
               (''Y'', ExecState nothing (Some (Service ''Y'' [(''Y'', ExecState \<lparr>ret = 1, extra = None\<rparr> None)]))),
               (''ayan::ServiceSecheduler'', ExecState nothing None)],
            [Run ''ayan::ServiceSecheduler'', Run ''X'', Run ''Y''])
   \<and> serve fan_out_program ()
        (Service ''ayan::ServiceSecheduler''
              [(''X'', ExecState nothing (Some (Service ''X'' [(''X'', ExecState \<lparr>ret = - 1, extra = None\<rparr> None)]))),
               (''Y'', ExecState nothing (Some (Service ''Y'' [(''Y'', ExecState \<lparr>ret = 1, extra = None\<rparr> None)]))),
               (''ayan::ServiceSecheduler'', ExecState nothing None)])
      = Inl NullDeref"
proof -
  have disp: "fan_out_program ''ayan::ServiceSecheduler'' = ServiceSecheduler"
    by (simp add: fan_out_program_def)
  have absent: "''ayan::ServiceSecheduler''
      \<notin> fst ` set [(''X'', ExecState nothing (Some (Service ''X'' []))),
                      (''Y'', ExecState nothing (Some (Service ''Y'' [])))]"
    by simp
  note first = fan_out_serve [unfolded fan_out_dispatcher_def]
  note inst = serve_leaves_null_self_entry [OF first, THEN conjunct2, THEN conjunct2, THEN conjunct2,
      rule_format, OF disp absent,
      THEN conjunct2, THEN conjunct2, rule_format, OF fan_out_hooks [rule_format]]
  from inst fan_out_serve show ?thesis by simp
qed

subsection \<open>C6: the order of install and uninstall\<close>

text \<open>
  Claim C6. Let the stack of a service hold, after its \<^verbatim>\<open>usuage\<close> hook, exactly the two
  children \<open>P\<close> and \<open>Q\<close>, with the identity of \<open>P\<close> below that of \<open>Q\<close>, and let the installs
  of the children return. Then \<open>install\<close> has called the \<^verbatim>\<open>usuage\<close> hook \<open>u\<close> of the concrete
  type on the stack it started with, then all of \<open>P\<close>'s install, then all of \<open>Q\<close>'s, and
  last the \<^verbatim>\<open>load\<close> hook \<open>l\<close> of the concrete type, on the stack as the children's installs
  left it: what \<open>install\<close> returns is the stack that \<open>l\<close> returns there, and when \<open>l\<close>
  (or \<open>u\<close>) faults, so does \<open>install\<close>. Likewise \<open>uninstall\<close> runs all of \<open>P\<close>'s and of
  \<open>Q\<close>'s uninstall and calls the \<^verbatim>\<open>unload\<close> hook \<open>ul\<close> of the concrete type last, on the stack
  the children's uninstalls left. For the dispatcher, whose three hooks are empty, the
  stack comes back as the children's calls left it. In the witness the \<^verbatim>\<open>usuage\<close> hook
  adds \<open>Q\<close> before \<open>P\<close>, the \<^verbatim>\<open>load\<close> hook writes to the entry of \<open>P\<close> and the \<^verbatim>\<open>unload\<close>
  hook empties the stack.
\<close>

theorem lifecycle_order:
  assumes inv: "map_invariant stk1"
    and children: "set stk1 = {(identity P, ExecState rp (Some P)), (identity Q, ExecState rq (Some Q))}"
    and order: "identity P < identity Q"
  shows "(prog nm = ServiceImpl u l ul r \<longrightarrow>
            (\<forall>f. u stk0 = Inl f \<longrightarrow> install (Suc n) prog (Service nm stk0) = Inl f)
          \<and> (u stk0 = Inr stk1 \<longrightarrow>
              install n prog P = Inr (P', tP) \<longrightarrow> install n prog Q = Inr (Q', tQ) \<longrightarrow>
                (\<forall>stk3. l [(identity P, ExecState rp (Some P')), (identity Q, ExecState rq (Some Q'))] = Inr stk3 \<longrightarrow>
                    install (Suc n) prog (Service nm stk0)
                      = Inr (Service nm stk3, Usuage nm # tP @ tQ @ [Load nm]))
              \<and> (\<forall>f. l [(identity P, ExecState rp (Some P')), (identity Q, ExecState rq (Some Q'))] = Inl f \<longrightarrow>
                    install (Suc n) prog (Service nm stk0) = Inl f)
              \<and> (\<exists>mP mQ. tP = Usuage (identity P) # mP @ [Load (identity P)]
                      \<and> tQ = Usuage (identity Q) # mQ @ [Load (identity Q)]))
          \<and> (uninstall prog P = Inr (P'', uP) \<longrightarrow> uninstall prog Q = Inr (Q'', uQ) \<longrightarrow>
                (\<forall>stk4. ul [(identity P, ExecState rp (Some P'')), (identity Q, ExecState rq (Some Q''))] = Inr stk4 \<longrightarrow>
                    uninstall prog (Service nm stk1)
                      = Inr (Service nm stk4, uP @ uQ @ [Unload nm]))
              \<and> (\<forall>f. ul [(identity P, ExecState rp (Some P'')), (identity Q, ExecState rq (Some Q''))] = Inl f \<longrightarrow>
                    uninstall prog (Service nm stk1) = Inl f)
              \<and> (\<exists>mP mQ. uP = mP @ [Unload (identity P)] \<and> uQ = mQ @ [Unload (identity Q)])))
     \<and> (prog nm = ServiceSecheduler \<longrightarrow>
            (install n prog P = Inr (P', tP) \<longrightarrow> install n prog Q = Inr (Q', tQ) \<longrightarrow>
                install (Suc n) prog (Service nm stk1)
                  = Inr (Service nm [(identity P, ExecState rp (Some P')), (identity Q, ExecState rq (Some Q'))],
                         Usuage nm # tP @ tQ @ [Load nm]))
          \<and> (uninstall prog P = Inr (P'', uP) \<longrightarrow> uninstall prog Q = Inr (Q'', uQ) \<longrightarrow>
                uninstall prog (Service nm stk1)
                  = Inr (Service nm [(identity P, ExecState rp (Some P'')), (identity Q, ExecState rq (Some Q''))],
                         uP @ uQ @ [Unload nm])))"
proof -
  have stk1: "stk1 = [(identity P, ExecState rp (Some P)), (identity Q, ExecState rq (Some Q))]"
    using inv children order by (rule two_entries)
  let ?inst = "[(identity P, ExecState rp (Some P')), (identity Q, ExecState rq (Some Q'))]"
  let ?uninst = "[(identity P, ExecState rp (Some P'')), (identity Q, ExecState rq (Some Q''))]"
  have user: "(\<forall>f. u stk0 = Inl f \<longrightarrow> install (Suc n) prog (Service nm stk0) = Inl f)
          \<and> (u stk0 = Inr stk1 \<longrightarrow>
              install n prog P = Inr (P', tP) \<longrightarrow> install n prog Q = Inr (Q', tQ) \<longrightarrow>
                (\<forall>stk3. l ?inst = Inr stk3 \<longrightarrow>
                    install (Suc n) prog (Service nm stk0)
                      = Inr (Service nm stk3, Usuage nm # tP @ tQ @ [Load nm]))
              \<and> (\<forall>f. l ?inst = Inl f \<longrightarrow> install (Suc n) prog (Service nm stk0) = Inl f)
              \<and> (\<exists>mP mQ. tP = Usuage (identity P) # mP @ [Load (identity P)]
                      \<and> tQ = Usuage (identity Q) # mQ @ [Load (identity Q)]))
          \<and> (uninstall prog P = Inr (P'', uP) \<longrightarrow> uninstall prog Q = Inr (Q'', uQ) \<longrightarrow>
                (\<forall>stk4. ul ?uninst = Inr stk4 \<longrightarrow>
                    uninstall prog (Service nm stk1)
                      = Inr (Service nm stk4, uP @ uQ @ [Unload nm]))
              \<and> (\<forall>f. ul ?uninst = Inl f \<longrightarrow> uninstall prog (Service nm stk1) = Inl f)
              \<and> (\<exists>mP mQ. uP = mP @ [Unload (identity P)] \<and> uQ = mQ @ [Unload (identity Q)]))"
    if impl: "prog nm = ServiceImpl u l ul r"
  proof -
    have ufault: "install (Suc n) prog (Service nm stk0) = Inl f" if "u stk0 = Inl f" for f
      using that impl by (simp add: install.simps)
    have children_done: "install (Suc n) prog (Service nm stk0)
        = and_then (l ?inst) (\<lambda>stk3. Inr (Service nm stk3, Usuage nm # tP @ tQ @ [Load nm]))"
      if "u stk0 = Inr stk1" and "install n prog P = Inr (P', tP)" and "install n prog Q = Inr (Q', tQ)"
      using that impl by (simp add: install.simps stk1)
    have inst: "(\<forall>stk3. l ?inst = Inr stk3 \<longrightarrow>
                    install (Suc n) prog (Service nm stk0)
                      = Inr (Service nm stk3, Usuage nm # tP @ tQ @ [Load nm]))
              \<and> (\<forall>f. l ?inst = Inl f \<longrightarrow> install (Suc n) prog (Service nm stk0) = Inl f)
              \<and> (\<exists>mP mQ. tP = Usuage (identity P) # mP @ [Load (identity P)]
                      \<and> tQ = Usuage (identity Q) # mQ @ [Load (identity Q)])"
      if a: "u stk0 = Inr stk1" and p: "install n prog P = Inr (P', tP)"
        and q: "install n prog Q = Inr (Q', tQ)"
    proof -
      from install_trace_shape [OF p] install_trace_shape [OF q]
      have "\<exists>mP mQ. tP = Usuage (identity P) # mP @ [Load (identity P)]
                      \<and> tQ = Usuage (identity Q) # mQ @ [Load (identity Q)]"
        by blast
      then show ?thesis using children_done [OF a p q] by simp
    qed
    have children_gone: "uninstall prog (Service nm stk1)
        = and_then (ul ?uninst) (\<lambda>stk4. Inr (Service nm stk4, uP @ uQ @ [Unload nm]))"
      if "uninstall prog P = Inr (P'', uP)" and "uninstall prog Q = Inr (Q'', uQ)"
      using that impl by (simp add: uninstall.simps stk1)
    have uninst: "(\<forall>stk4. ul ?uninst = Inr stk4 \<longrightarrow>
                    uninstall prog (Service nm stk1)
                      = Inr (Service nm stk4, uP @ uQ @ [Unload nm]))
              \<and> (\<forall>f. ul ?uninst = Inl f \<longrightarrow> uninstall prog (Service nm stk1) = Inl f)
              \<and> (\<exists>mP mQ. uP = mP @ [Unload (identity P)] \<and> uQ = mQ @ [Unload (identity Q)])"
      if p: "uninstall prog P = Inr (P'', uP)" and q: "uninstall prog Q = Inr (Q'', uQ)"
    proof -
      from uninstall_trace_shape [OF p] uninstall_trace_shape [OF q]
      have "\<exists>mP mQ. uP = mP @ [Unload (identity P)] \<and> uQ = mQ @ [Unload (identity Q)]"
        by blast
      then show ?thesis using children_gone [OF p q] by simp
    qed
    from ufault inst uninst show ?thesis by blast
  qed
  have disp: "(install n prog P = Inr (P', tP) \<longrightarrow> install n prog Q = Inr (Q', tQ) \<longrightarrow>
                install (Suc n) prog (Service nm stk1)
                  = Inr (Service nm ?inst, Usuage nm # tP @ tQ @ [Load nm]))
          \<and> (uninstall prog P = Inr (P'', uP) \<longrightarrow> uninstall prog Q = Inr (Q'', uQ) \<longrightarrow>
                uninstall prog (Service nm stk1)
                  = Inr (Service nm ?uninst, uP @ uQ @ [Unload nm]))"
    if "prog nm = ServiceSecheduler"
    using that by (simp add: install.simps uninstall.simps stk1)
  from user disp show ?thesis by blast
qed

theorem lifecycle_order_witness:
  "map_invariant [(''P'', ExecState nothing (Some (Service ''P'' []))),
                  (''Q'', ExecState nothing (Some (Service ''Q'' [])))]
   \<and> lifecycle_program ''S''
       = ServiceImpl
          (add_each [Service ''Q'' [], Service ''P'' []])
          (\<lambda>stk. Inr (snd (replace ''P'' \<lparr>ret = 1, extra = None\<rparr> stk)))
          (\<lambda>stk. Inr (remove_all stk))
          (\<lambda>event stk. Inr (nothing, stk))
   \<and> add_each [Service ''Q'' [], Service ''P'' []] []
       = Inr [(''P'', ExecState nothing (Some (Service ''P'' []))),
              (''Q'', ExecState nothing (Some (Service ''Q'' [])))]
   \<and> install (Suc (Suc 0)) lifecycle_program (Service ''S'' [])
       = Inr (Service ''S'' [(''P'', ExecState \<lparr>ret = 1, extra = None\<rparr> (Some (Service ''P'' []))),
                             (''Q'', ExecState nothing (Some (Service ''Q'' [])))],
              [Usuage ''S'', Usuage ''P'', Load ''P'', Usuage ''Q'', Load ''Q'', Load ''S''])
   \<and> uninstall lifecycle_program
         (Service ''S'' [(''P'', ExecState nothing (Some (Service ''P'' []))),
                         (''Q'', ExecState nothing (Some (Service ''Q'' [])))])
       = Inr (Service ''S'' [], [Unload ''P'', Unload ''Q'', Unload ''S''])"
proof -
  let ?P = "Service ''P'' []" and ?Q = "Service ''Q'' []"
  let ?stk = "[(''P'', ExecState nothing (Some ?P)), (''Q'', ExecState nothing (Some ?Q))]"
  let ?u = "add_each [Service ''Q'' [], Service ''P'' []]"
  let ?l = "\<lambda>stk. Inr (snd (replace ''P'' \<lparr>ret = 1, extra = None\<rparr> stk)) :: fault + ExecuteStack"
  let ?ul = "\<lambda>stk. Inr (remove_all stk) :: fault + ExecuteStack"
  let ?r = "\<lambda>(event :: unit) (stk :: ExecuteStack). Inr (nothing, stk) :: fault + (RunResult \<times> ExecuteStack)"
  have inv: "map_invariant ?stk" by (simp add: map_invariant_def)
  have children: "set ?stk = {(identity ?P, ExecState nothing (Some ?P)),
      (identity ?Q, ExecState nothing (Some ?Q))}"
    by simp
  have order: "identity ?P < identity ?Q" by simp
  have impl: "lifecycle_program ''S'' = ServiceImpl ?u ?l ?ul ?r"
    by (simp add: lifecycle_program_def)
  have use: "?u [] = Inr ?stk"
    by (simp add: add_def)
  have p: "install (Suc 0) lifecycle_program ?P = Inr (?P, [Usuage ''P'', Load ''P''])"
    by (rule install_leaf) (simp add: lifecycle_program_def)
  have q: "install (Suc 0) lifecycle_program ?Q = Inr (?Q, [Usuage ''Q'', Load ''Q''])"
    by (rule install_leaf) (simp add: lifecycle_program_def)
  have ld: "?l [(identity ?P, ExecState nothing (Some ?P)), (identity ?Q, ExecState nothing (Some ?Q))]
      = Inr [(''P'', ExecState \<lparr>ret = 1, extra = None\<rparr> (Some ?P)), (''Q'', ExecState nothing (Some ?Q))]"
    by (simp add: replace_def)
  have up: "uninstall lifecycle_program ?P = Inr (?P, [Unload ''P''])"
    by (rule uninstall_leaf) (simp add: lifecycle_program_def)
  have uq: "uninstall lifecycle_program ?Q = Inr (?Q, [Unload ''Q''])"
    by (rule uninstall_leaf) (simp add: lifecycle_program_def)
  have uld: "?ul [(identity ?P, ExecState nothing (Some ?P)), (identity ?Q, ExecState nothing (Some ?Q))]
      = Inr []"
    by (simp add: remove_all_def)
  note both = lifecycle_order [OF inv children order, of lifecycle_program "''S''" ?u ?l ?ul ?r,
      THEN conjunct1, rule_format, OF impl]
  note a = both [THEN conjunct2, THEN conjunct1, rule_format, OF use p q,
      THEN conjunct1, rule_format, OF ld]
  note b = both [THEN conjunct2, THEN conjunct2, rule_format, OF up uq,
      THEN conjunct1, rule_format, OF uld]
  from a b inv impl use show ?thesis by simp
qed

end
